theory Spec2Isabelle
  imports Main
begin

section \<open>Values, sessions and observable effects\<close>

text \<open>
  The development embeds \<^verbatim>\<open>src/context/MessengerContext.js\<close>. JavaScript values that
  travel through the context (message texts, the optional \<^verbatim>\<open>options\<close> object, the
  rest arguments of the generated methods, results and errors of the platform client)
  are values of \<open>jsval\<close>; \<open>truthy\<close> is the test JavaScript applies in a condition.
\<close>

datatype jsval =
    JUndefined
  | JNull
  | JBool bool
  | JNum int
  | JStr string
  | JObj "(string \<times> jsval) list"

fun truthy :: "jsval \<Rightarrow> bool" where
  "truthy JUndefined = False"
| "truthy JNull = False"
| "truthy (JBool b) = b"
| "truthy (JNum n) = (n \<noteq> 0)"
| "truthy (JStr s) = (s \<noteq> [])"
| "truthy (JObj fs) = True"

text \<open>\<^verbatim>\<open>this._session\<close> is either absent or an object with \<^verbatim>\<open>user.id\<close>.\<close>

record messenger_user =
  user_id :: string

record messenger_session =
  user :: messenger_user

text \<open>What a deferred settles to: resolution with a value or rejection with an error.\<close>

datatype outcome = Fulfilled jsval | Failed jsval

text \<open>
  The promises the methods return. \<open>Settled r\<close> is already settled
  (\<^verbatim>\<open>Promise.resolve()\<close> is \<open>Settled (Fulfilled JUndefined)\<close>); \<open>Deferred n\<close> is
  the \<open>n\<close>-th promise made by \<^verbatim>\<open>_enqueue\<close>, settled later through the callbacks
  stored on the job; \<open>FromClient m as\<close> is the promise that the client call
  \<^verbatim>\<open>client.m(...as)\<close> returned.
\<close>

datatype promise =
    Settled outcome
  | Deferred nat
  | FromClient string "jsval list"

text \<open>
  The effects that leave the context, in the order they happen: a call of
  \<^verbatim>\<open>warning(false, msg)\<close>; a call that the context itself makes on the platform
  client (\<^verbatim>\<open>this._client.typingOn\<close>, \<^verbatim>\<open>this._client.typingOff\<close>); a \<^verbatim>\<open>sleep(ms)\<close> that
  has been awaited to its end (the \<^verbatim>\<open>delay\<close> package resolves it no sooner than \<open>ms\<close>
  milliseconds after the call); the call \<^verbatim>\<open>instance[method](...args)\<close> that the queue
  makes on the platform client for the job carrying the callbacks of the \<open>n\<close>-th
  deferred; and the settling of the \<open>n\<close>-th deferred through its \<^verbatim>\<open>onSuccess\<close> or
  \<^verbatim>\<open>onError\<close> callback.
\<close>

datatype event =
    Warning string
  | ClientCall string "jsval list"
  | Sleep int
  | Invoke nat string "jsval list"
  | Deliver nat outcome

section \<open>Jobs and the job queue\<close>

text \<open>
  The object literal passed to \<^verbatim>\<open>_enqueue\<close>. Its \<^verbatim>\<open>instance\<close> is
  \<^verbatim>\<open>this._client\<close> at every place of the file, so the field is not repeated here.
  \<open>showIndicators = None\<close> is a job without the field: both hooks default it to true.
\<close>

record job =
  "method" :: string
  args :: "jsval list"
  delay :: int
  showIndicators :: "bool option"

text \<open>
  A queued job is the job together with the number of the deferred whose
  \<^verbatim>\<open>resolve\<close> and \<^verbatim>\<open>reject\<close> it carries as \<^verbatim>\<open>onSuccess\<close> and \<^verbatim>\<open>onError\<close>.
\<close>

type_synonym queued = "job \<times> nat"

text \<open>
  Modelled from the spec: the state of \<^verbatim>\<open>DelayableJobQueue\<close>, which is not among the
  sources. The spec gives it an ordered list of pending jobs and the states idle and
  draining, with one job executing while it drains. The phase says where the queue
  stands: idle, or suspended with the job in hand at one of the three places where the
  draining awaits (the before-hook, the job's action, the after-hook).
\<close>

datatype phase =
    Idle
  | AwaitBefore queued
  | AwaitAction queued
  | AwaitAfter queued outcome

record queue =
  pending :: "queued list"
  phase :: phase

record messenger_context =
  session :: "messenger_session option"
  messageDelay :: int
  jobQueue :: queue
  deferreds :: nat
  trace :: "event list"

text \<open>
  \<open>deferreds\<close> counts the promises \<^verbatim>\<open>_enqueue\<close> has made, \<open>trace\<close> collects the
  effects. \<^verbatim>\<open>_client\<close> is opaque: a call to it is a \<open>ClientCall\<close> in the trace.
  \<^verbatim>\<open>_event\<close> is stored by the constructor and read nowhere in the file.
\<close>

definition emit :: "event \<Rightarrow> messenger_context \<Rightarrow> messenger_context" where
  "emit e c = c\<lparr>trace := trace c @ [e]\<rparr>"

text \<open>\<^verbatim>\<open>warning(false, msg)\<close>: the condition is false at every call, so it always warns.\<close>

definition warning :: "string \<Rightarrow> messenger_context \<Rightarrow> messenger_context" where
  "warning msg c = emit (Warning msg) c"

definition without_session :: "string \<Rightarrow> string" where
  "without_session name = name @ '': should not be called in context without session''"

definition deprecated :: "string \<Rightarrow> string" where
  "deprecated name = name @ '' is deprecated.''"

section \<open>typingOn and typingOff\<close>

definition typingOn :: "messenger_context \<Rightarrow> promise \<times> messenger_context" where
  "typingOn c =
     (case session c of
        None \<Rightarrow> (Settled (Fulfilled JUndefined), warning (without_session ''typingOn'') c)
      | Some s \<Rightarrow>
          (FromClient ''typingOn'' [JStr (user_id (user s))],
           emit (ClientCall ''typingOn'' [JStr (user_id (user s))]) c))"

definition typingOff :: "messenger_context \<Rightarrow> promise \<times> messenger_context" where
  "typingOff c =
     (case session c of
        None \<Rightarrow> (Settled (Fulfilled JUndefined), warning (without_session ''typingOff'') c)
      | Some s \<Rightarrow>
          (FromClient ''typingOff'' [JStr (user_id (user s))],
           emit (ClientCall ''typingOff'' [JStr (user_id (user s))]) c))"

section \<open>The hooks the constructor registers\<close>

text \<open>The default of the destructured parameter: \<^verbatim>\<open>{ showIndicators = true }\<close>.\<close>

definition indicators :: "job \<Rightarrow> bool" where
  "indicators j = (case showIndicators j of None \<Rightarrow> True | Some b \<Rightarrow> b)"

text \<open>
  The before-hook up to its \<^verbatim>\<open>await sleep(delay)\<close>: \<^verbatim>\<open>this.typingOn()\<close> is called and
  its promise dropped. The hook is over when the sleep is.
\<close>

definition beforeEach_hook :: "job \<Rightarrow> messenger_context \<Rightarrow> messenger_context" where
  "beforeEach_hook j c = (if indicators j then snd (typingOn c) else c)"

definition after_hook :: "job \<Rightarrow> messenger_context \<Rightarrow> messenger_context" where
  "after_hook j c = (if indicators j then snd (typingOff c) else c)"

section \<open>DelayableJobQueue\<close>

text \<open>
  Modelled from the spec: \<^verbatim>\<open>DelayableJobQueue\<close> is imported from
  \<^verbatim>\<open>./DelayableJobQueue\<close>, which is not among the sources. The spec, section 4.1:
  enqueue appends the job to the pending list and, if the queue was idle, starts
  draining immediately. Draining pops the head job, invokes the before-hook and awaits
  it, invokes the job's action (the method of the instance with the argument list),
  awaits its settlement, invokes the after-hook and awaits it, routes the resolution to
  \<^verbatim>\<open>onSuccess\<close> or the rejection to \<^verbatim>\<open>onError\<close>, and proceeds to the next job whether
  or not the last one failed; the queue is idle when no job remains.
\<close>

definition start_next :: "messenger_context \<Rightarrow> messenger_context" where
  "start_next c =
     (case pending (jobQueue c) of
        [] \<Rightarrow> c\<lparr>jobQueue := \<lparr>pending = [], phase = Idle\<rparr>\<rparr>
      | jt # rest \<Rightarrow>
          beforeEach_hook (fst jt) (c\<lparr>jobQueue := \<lparr>pending = rest, phase = AwaitBefore jt\<rparr>\<rparr>))"

text \<open>
  Modelled from the spec: \<^verbatim>\<open>DelayableJobQueue.enqueue\<close> is not among the sources. The
  spec: it appends the job to the pending list and, if the queue was idle, starts
  draining immediately; it returns nothing.
\<close>

definition enqueue :: "queued \<Rightarrow> messenger_context \<Rightarrow> messenger_context" where
  "enqueue jt c =
     (let c' = c\<lparr>jobQueue := (jobQueue c)\<lparr>pending := pending (jobQueue c) @ [jt]\<rparr>\<rparr>
      in case phase (jobQueue c) of Idle \<Rightarrow> start_next c' | _ \<Rightarrow> c')"

text \<open>
  Modelled from the spec: the three places where the draining resumes. The timer of the
  before-hook's sleep fires: the sleep is over and the action is invoked. The action's
  promise settles with \<open>r\<close>: the after-hook is invoked. The after-hook's promise
  settles: \<open>r\<close> goes to the job's callback and the next job starts. A resumption that
  the queue is not waiting for does not happen (\<open>None\<close>).
\<close>

datatype resumption = TimerFired | ActionSettled outcome | AfterDone

definition set_phase :: "phase \<Rightarrow> messenger_context \<Rightarrow> messenger_context" where
  "set_phase p c = c\<lparr>jobQueue := (jobQueue c)\<lparr>phase := p\<rparr>\<rparr>"

text \<open>
  Modelled from the spec: the rest of the draining of \<^verbatim>\<open>DelayableJobQueue\<close>, which is
  not among the sources, cut at its awaits as said above.
\<close>

fun resume :: "resumption \<Rightarrow> messenger_context \<Rightarrow> messenger_context option" where
  "resume TimerFired c =
     (case phase (jobQueue c) of
        AwaitBefore jt \<Rightarrow>
          Some (set_phase (AwaitAction jt)
                  (emit (Invoke (snd jt) (method (fst jt)) (args (fst jt)))
                     (emit (Sleep (delay (fst jt))) c)))
      | _ \<Rightarrow> None)"
| "resume (ActionSettled r) c =
     (case phase (jobQueue c) of
        AwaitAction jt \<Rightarrow> Some (set_phase (AwaitAfter jt r) (after_hook (fst jt) c))
      | _ \<Rightarrow> None)"
| "resume AfterDone c =
     (case phase (jobQueue c) of
        AwaitAfter jt r \<Rightarrow> Some (start_next (emit (Deliver (snd jt) r) c))
      | _ \<Rightarrow> None)"

section \<open>MessengerContext\<close>

text \<open>
  Modelled from the spec: \<^verbatim>\<open>setMessageDelay\<close> belongs to the base class
  \<^verbatim>\<open>Context\<close>, which is not among the sources; the spec calls the default message delay
  mutable and set to 1000 ms by the constructor.
\<close>

definition setMessageDelay :: "int \<Rightarrow> messenger_context \<Rightarrow> messenger_context" where
  "setMessageDelay ms c = c\<lparr>messageDelay := ms\<rparr>"

text \<open>
  The constructor: a new queue with the two hooks above, and the delay set to 1000.
  What \<^verbatim>\<open>_messageDelay\<close> holds before that call is overwritten by it.
\<close>

definition new_MessengerContext :: "messenger_session option \<Rightarrow> messenger_context" where
  "new_MessengerContext s =
     setMessageDelay 1000
       \<lparr>session = s, messageDelay = 0, jobQueue = \<lparr>pending = [], phase = Idle\<rparr>,
        deferreds = 0, trace = []\<rparr>"

definition platform :: string where
  "platform = ''messenger''"

text \<open>
  \<^verbatim>\<open>_enqueue\<close>: the executor of \<^verbatim>\<open>new Promise\<close> runs at once, so the job is enqueued,
  with the callbacks of the new promise, before \<^verbatim>\<open>_enqueue\<close> returns.
\<close>

definition ctx_enqueue :: "job \<Rightarrow> messenger_context \<Rightarrow> promise \<times> messenger_context" where
  "ctx_enqueue j c =
     (Deferred (deferreds c), enqueue (j, deferreds c) (c\<lparr>deferreds := Suc (deferreds c)\<rparr>))"

definition sendText :: "string \<Rightarrow> jsval \<Rightarrow> messenger_context \<Rightarrow> promise \<times> messenger_context" where
  "sendText text options c =
     (case session c of
        None \<Rightarrow> (Settled (Fulfilled JUndefined), warning (without_session ''sendText'') c)
      | Some s \<Rightarrow>
          ctx_enqueue
            \<lparr>method = ''sendText'',
             args = (if truthy options
                     then [JStr (user_id (user s)), JStr text, options]
                     else [JStr (user_id (user s)), JStr text]),
             delay = messageDelay c,
             showIndicators = Some True\<rparr> c)"

definition sendTextWithDelay :: "int \<Rightarrow> string \<Rightarrow> messenger_context \<Rightarrow> promise \<times> messenger_context" where
  "sendTextWithDelay d text c =
     (case session c of
        None \<Rightarrow>
          (Settled (Fulfilled JUndefined), warning (without_session ''sendTextWithDelay'') c)
      | Some s \<Rightarrow>
          ctx_enqueue
            \<lparr>method = ''sendText'',
             args = [JStr (user_id (user s)), JStr text],
             delay = d,
             showIndicators = Some True\<rparr> c)"

definition sendMethods :: "string list" where
  "sendMethods =
     [''sendAttachment'', ''sendImage'', ''sendAudio'', ''sendVideo'', ''sendFile'',
      ''sendQuickReplies'', ''sendGenericTemplate'', ''sendButtonTemplate'',
      ''sendListTemplate'', ''sendReceiptTemplate'', ''sendAirlineBoardingPassTemplate'',
      ''sendAirlineCheckinTemplate'', ''sendAirlineItineraryTemplate'',
      ''sendAirlineFlightUpdateTemplate'']"

text \<open>
  The two functions that \<^verbatim>\<open>sendMethods.forEach\<close> defines for a name \<open>m\<close> of the list:
  \<open>send_method m\<close> is the property \<open>m\<close>, \<open>send_methodWithDelay m\<close> the property
  \<open>m\<close>\<^verbatim>\<open>WithDelay\<close>.
\<close>

definition send_method :: "string \<Rightarrow> jsval list \<Rightarrow> messenger_context \<Rightarrow> promise \<times> messenger_context" where
  "send_method m as c =
     (case session c of
        None \<Rightarrow> (Settled (Fulfilled JUndefined), warning (without_session m) c)
      | Some s \<Rightarrow>
          ctx_enqueue
            \<lparr>method = m,
             args = JStr (user_id (user s)) # as,
             delay = messageDelay c,
             showIndicators = Some True\<rparr> c)"

definition send_methodWithDelay ::
  "string \<Rightarrow> int \<Rightarrow> jsval list \<Rightarrow> messenger_context \<Rightarrow> promise \<times> messenger_context" where
  "send_methodWithDelay m d rest c =
     (let c1 = warning (deprecated (m @ ''WithDelay'')) c in
      case session c1 of
        None \<Rightarrow>
          (Settled (Fulfilled JUndefined), warning (without_session (m @ ''WithDelay'')) c1)
      | Some s \<Rightarrow>
          ctx_enqueue
            \<lparr>method = m,
             args = JStr (user_id (user s)) # rest,
             delay = d,
             showIndicators = Some True\<rparr> c1)"

section \<open>typing\<close>

text \<open>
  What the promises of the platform client settle to is not decided by this file: it is
  a parameter, a function from the call to the outcome.
\<close>

type_synonym client = "string \<Rightarrow> jsval list \<Rightarrow> outcome"

text \<open>
  \<^verbatim>\<open>await p\<close>. A deferred of the queue settles only when the queue is driven, so
  awaiting one does not return by itself (\<open>None\<close>).
\<close>

fun await :: "client \<Rightarrow> promise \<Rightarrow> outcome option" where
  "await cl (Settled r) = Some r"
| "await cl (FromClient m as) = Some (cl m as)"
| "await cl (Deferred n) = None"

text \<open>
  The async function \<^verbatim>\<open>typing\<close>: three awaits in a row. An awaited promise that
  rejects ends the function there, and the promise of \<^verbatim>\<open>typing\<close> rejects with the
  same error.
\<close>

definition typing :: "client \<Rightarrow> int \<Rightarrow> messenger_context \<Rightarrow> (promise \<times> messenger_context) option" where
  "typing cl milliseconds c =
     (case typingOn c of (p1, c1) \<Rightarrow>
        (case await cl p1 of
           None \<Rightarrow> None
         | Some (Failed e) \<Rightarrow> Some (Settled (Failed e), c1)
         | Some (Fulfilled v) \<Rightarrow>
             (case typingOff (emit (Sleep milliseconds) c1) of (p2, c2) \<Rightarrow>
                (case await cl p2 of
                   None \<Rightarrow> None
                 | Some (Failed e) \<Rightarrow> Some (Settled (Failed e), c2)
                 | Some (Fulfilled w) \<Rightarrow> Some (Settled (Fulfilled JUndefined), c2)))))"

section \<open>Driving a context\<close>

text \<open>
  The session-scoped operations of the public interface. A generated method exists
  only for the names of \<open>sendMethods\<close>; calling a property that was never defined
  throws, which is \<open>None\<close> here.
\<close>

datatype operation =
    SendText string jsval
  | SendTextWithDelay int string
  | TypingOn
  | TypingOff
  | Send string "jsval list"
  | SendWithDelay string int "jsval list"

fun perform :: "operation \<Rightarrow> messenger_context \<Rightarrow> (promise \<times> messenger_context) option" where
  "perform (SendText text options) c = Some (sendText text options c)"
| "perform (SendTextWithDelay d text) c = Some (sendTextWithDelay d text c)"
| "perform TypingOn c = Some (typingOn c)"
| "perform TypingOff c = Some (typingOff c)"
| "perform (Send m as) c =
     (if m \<in> set sendMethods then Some (send_method m as c) else None)"
| "perform (SendWithDelay m d rest) c =
     (if m \<in> set sendMethods then Some (send_methodWithDelay m d rest c) else None)"

fun op_name :: "operation \<Rightarrow> string" where
  "op_name (SendText text options) = ''sendText''"
| "op_name (SendTextWithDelay d text) = ''sendTextWithDelay''"
| "op_name TypingOn = ''typingOn''"
| "op_name TypingOff = ''typingOff''"
| "op_name (Send m as) = m"
| "op_name (SendWithDelay m d rest) = m @ ''WithDelay''"

fun defined :: "operation \<Rightarrow> bool" where
  "defined (Send m as) = (m \<in> set sendMethods)"
| "defined (SendWithDelay m d rest) = (m \<in> set sendMethods)"
| "defined _ = True"

text \<open>
  What can happen to a context, one thing at a time: a call of a public operation, a
  direct call of \<^verbatim>\<open>_enqueue\<close>, or a resumption of the queue. A schedule is a list of
  these; \<open>run\<close> is \<open>None\<close> when the schedule asks for something that cannot happen.
\<close>

datatype input = Call operation | Enqueue job | Resume resumption

fun step :: "input \<Rightarrow> messenger_context \<Rightarrow> messenger_context option" where
  "step (Call x) c = map_option snd (perform x c)"
| "step (Enqueue j) c = Some (snd (ctx_enqueue j c))"
| "step (Resume r) c = resume r c"

fun run :: "input list \<Rightarrow> messenger_context \<Rightarrow> messenger_context option" where
  "run [] c = Some c"
| "run (i # ins) c = (case step i c of None \<Rightarrow> None | Some c' \<Rightarrow> run ins c')"

section \<open>Reading a trace\<close>

fun warnings :: "event list \<Rightarrow> string list" where
  "warnings [] = []"
| "warnings (Warning msg # es) = msg # warnings es"
| "warnings (e # es) = warnings es"

text \<open>Every call that reaches the platform client, whoever makes it.\<close>

fun client_calls :: "event list \<Rightarrow> (string \<times> jsval list) list" where
  "client_calls [] = []"
| "client_calls (ClientCall m as # es) = (m, as) # client_calls es"
| "client_calls (Invoke n m as # es) = (m, as) # client_calls es"
| "client_calls (e # es) = client_calls es"

definition ends_with :: "string \<Rightarrow> string \<Rightarrow> bool" where
  "ends_with sfx s = (drop (length s - length sfx) s = sfx)"

definition is_deprecation :: "string \<Rightarrow> bool" where
  "is_deprecation msg = ends_with '' is deprecated.'' msg"

text \<open>The jobs a queue holds: the one in hand, then the pending ones.\<close>

fun current :: "phase \<Rightarrow> queued list" where
  "current Idle = []"
| "current (AwaitBefore jt) = [jt]"
| "current (AwaitAction jt) = [jt]"
| "current (AwaitAfter jt r) = [jt]"

definition held :: "messenger_context \<Rightarrow> queued list" where
  "held c = current (phase (jobQueue c)) @ pending (jobQueue c)"

definition idle :: "messenger_context \<Rightarrow> bool" where
  "idle c = (phase (jobQueue c) = Idle \<and> pending (jobQueue c) = [])"

text \<open>
  What a hook adds to the trace when it calls \<^verbatim>\<open>this.typingOn()\<close> or
  \<^verbatim>\<open>this.typingOff()\<close> under its \<^verbatim>\<open>if (showIndicators)\<close>: the call on the client for
  the user of the session, or the warning of a context without session, or nothing.
\<close>

definition signal :: "string \<Rightarrow> messenger_session option \<Rightarrow> job \<Rightarrow> event list" where
  "signal name s j =
     (if indicators j
      then (case s of
              None \<Rightarrow> [Warning (without_session name)]
            | Some u \<Rightarrow> [ClientCall name [JStr (user_id (user u))]])
      else [])"

text \<open>The inputs that go through the public interface or come from the queue itself.\<close>

fun public_input :: "input \<Rightarrow> bool" where
  "public_input (Enqueue j) = False"
| "public_input _ = True"

section \<open>Schedules of the queue\<close>

text \<open>
  The schedules of the queue alone: direct calls of \<^verbatim>\<open>_enqueue\<close> with any job, and
  resumptions. What such a schedule enqueues (each job with the number of its deferred,
  counted from \<open>d\<close>), the outcomes it hands to the settled actions, and how many
  jobs it brings to their end.
\<close>

fun queue_input :: "input \<Rightarrow> bool" where
  "queue_input (Call x) = False"
| "queue_input _ = True"

fun enqueued :: "nat \<Rightarrow> input list \<Rightarrow> queued list" where
  "enqueued d [] = []"
| "enqueued d (Enqueue j # ins) = (j, d) # enqueued (Suc d) ins"
| "enqueued d (i # ins) = enqueued d ins"

fun outcomes :: "input list \<Rightarrow> outcome list" where
  "outcomes [] = []"
| "outcomes (Resume (ActionSettled r) # ins) = r # outcomes ins"
| "outcomes (i # ins) = outcomes ins"

fun completed :: "input list \<Rightarrow> nat" where
  "completed [] = 0"
| "completed (Resume AfterDone # ins) = Suc (completed ins)"
| "completed (i # ins) = completed ins"

text \<open>
  The effects of one job when nothing else happens in between: the signal of the
  before-hook, its sleep, the action, the signal of the after-hook, the callback. And
  the part of them that has happened for the job in hand, by the phase of the queue.
\<close>

definition job_events :: "messenger_session option \<Rightarrow> queued \<Rightarrow> outcome \<Rightarrow> event list" where
  "job_events s jt r =
     signal ''typingOn'' s (fst jt)
       @ [Sleep (delay (fst jt)), Invoke (snd jt) (method (fst jt)) (args (fst jt))]
       @ signal ''typingOff'' s (fst jt)
       @ [Deliver (snd jt) r]"

fun in_hand :: "messenger_session option \<Rightarrow> phase \<Rightarrow> event list" where
  "in_hand s Idle = []"
| "in_hand s (AwaitBefore jt) = signal ''typingOn'' s (fst jt)"
| "in_hand s (AwaitAction jt) =
     signal ''typingOn'' s (fst jt)
       @ [Sleep (delay (fst jt)), Invoke (snd jt) (method (fst jt)) (args (fst jt))]"
| "in_hand s (AwaitAfter jt r) =
     signal ''typingOn'' s (fst jt)
       @ [Sleep (delay (fst jt)), Invoke (snd jt) (method (fst jt)) (args (fst jt))]
       @ signal ''typingOff'' s (fst jt)"

text \<open>Jobs run one after the other, each to its end, with the outcomes in order.\<close>

definition serial :: "messenger_session option \<Rightarrow> queued list \<Rightarrow> outcome list \<Rightarrow> event list" where
  "serial s jts rs = concat (map2 (job_events s) jts rs)"

text \<open>The invariant of the queue under the schedules above.\<close>

fun settled :: "phase \<Rightarrow> nat" where
  "settled (AwaitAfter jt r) = 1"
| "settled _ = 0"

fun phase_ok :: "phase \<Rightarrow> queued list \<Rightarrow> outcome list \<Rightarrow> bool" where
  "phase_ok Idle pend rs = (pend = [])"
| "phase_ok (AwaitAfter jt r) pend rs = (last rs = r)"
| "phase_ok _ pend rs = True"

definition queue_inv :: "messenger_context \<Rightarrow> input list \<Rightarrow> messenger_context \<Rightarrow> bool" where
  "queue_inv c0 ins c =
     (session c = session c0
      \<and> deferreds c = deferreds c0 + length (enqueued (deferreds c0) ins)
      \<and> completed ins \<le> length (enqueued (deferreds c0) ins)
      \<and> held c = drop (completed ins) (enqueued (deferreds c0) ins)
      \<and> length (outcomes ins) = completed ins + settled (phase (jobQueue c))
      \<and> phase_ok (phase (jobQueue c)) (pending (jobQueue c)) (outcomes ins)
      \<and> trace c = trace c0
            @ serial (session c0) (take (completed ins) (enqueued (deferreds c0) ins))
                (take (completed ins) (outcomes ins))
            @ in_hand (session c0) (phase (jobQueue c)))"

text \<open>
  The calls the queue has made for its jobs, in the order of the trace; the call a
  queued job stands for; and whether the job in hand has been invoked.
\<close>

fun invocations :: "event list \<Rightarrow> (nat \<times> string \<times> jsval list) list" where
  "invocations [] = []"
| "invocations (Invoke n m as # es) = (n, m, as) # invocations es"
| "invocations (e # es) = invocations es"

definition call_of :: "queued \<Rightarrow> nat \<times> string \<times> jsval list" where
  "call_of jt = (snd jt, method (fst jt), args (fst jt))"

fun invoked :: "phase \<Rightarrow> nat" where
  "invoked Idle = 0"
| "invoked (AwaitBefore jt) = 0"
| "invoked (AwaitAction jt) = 1"
| "invoked (AwaitAfter jt r) = 1"

section \<open>Sample data\<close>

text \<open>A session, two jobs and a client, for the concrete runs further down.\<close>

definition alice :: messenger_session where
  "alice = \<lparr>user = \<lparr>user_id = ''u1''\<rparr>\<rparr>"

definition hello :: job where
  "hello = \<lparr>method = ''sendText'', args = [JStr ''u1'', JStr ''hi''], delay = 1000,
            showIndicators = Some True\<rparr>"

definition quiet :: job where
  "quiet = \<lparr>method = ''sendImage'', args = [JStr ''u1'', JStr ''cat.png''], delay = 0,
            showIndicators = Some False\<rparr>"

definition unreachable :: client where
  "unreachable m as = Failed (JStr ''unreachable'')"

definition reachable :: client where
  "reachable m as = Fulfilled (JObj [])"

section \<open>Basic facts\<close>


lemma emit_fields [simp]:
  "trace (emit e c) = trace c @ [e]"
  "session (emit e c) = session c"
  "messageDelay (emit e c) = messageDelay c"
  "jobQueue (emit e c) = jobQueue c"
  "deferreds (emit e c) = deferreds c"
  by (simp_all add: emit_def)

lemma warning_fields [simp]:
  "trace (warning msg c) = trace c @ [Warning msg]"
  "session (warning msg c) = session c"
  "messageDelay (warning msg c) = messageDelay c"
  "jobQueue (warning msg c) = jobQueue c"
  "deferreds (warning msg c) = deferreds c"
  by (simp_all add: warning_def)

lemma setMessageDelay_fields [simp]:
  "trace (setMessageDelay d c) = trace c"
  "session (setMessageDelay d c) = session c"
  "messageDelay (setMessageDelay d c) = d"
  "jobQueue (setMessageDelay d c) = jobQueue c"
  "deferreds (setMessageDelay d c) = deferreds c"
  by (simp_all add: setMessageDelay_def)

lemma set_phase_fields [simp]:
  "trace (set_phase p c) = trace c"
  "session (set_phase p c) = session c"
  "messageDelay (set_phase p c) = messageDelay c"
  "pending (jobQueue (set_phase p c)) = pending (jobQueue c)"
  "phase (jobQueue (set_phase p c)) = p"
  "deferreds (set_phase p c) = deferreds c"
  by (simp_all add: set_phase_def)

lemma warnings_append [simp]: "warnings (xs @ ys) = warnings xs @ warnings ys"
  by (induction xs rule: warnings.induct) simp_all

lemma client_calls_append [simp]: "client_calls (xs @ ys) = client_calls xs @ client_calls ys"
  by (induction xs rule: client_calls.induct) simp_all

lemma beforeEach_hook_fields [simp]:
  "trace (beforeEach_hook j c) = trace c @ signal ''typingOn'' (session c) j"
  "session (beforeEach_hook j c) = session c"
  "messageDelay (beforeEach_hook j c) = messageDelay c"
  "jobQueue (beforeEach_hook j c) = jobQueue c"
  "deferreds (beforeEach_hook j c) = deferreds c"
  by (simp_all add: beforeEach_hook_def typingOn_def signal_def split: option.splits)

lemma after_hook_fields [simp]:
  "trace (after_hook j c) = trace c @ signal ''typingOff'' (session c) j"
  "session (after_hook j c) = session c"
  "messageDelay (after_hook j c) = messageDelay c"
  "jobQueue (after_hook j c) = jobQueue c"
  "deferreds (after_hook j c) = deferreds c"
  by (simp_all add: after_hook_def typingOff_def signal_def split: option.splits)

lemma start_next_fields [simp]:
  "session (start_next c) = session c"
  "messageDelay (start_next c) = messageDelay c"
  "deferreds (start_next c) = deferreds c"
  by (simp_all add: start_next_def split: list.splits)

lemma start_next_Nil:
  "pending (jobQueue c) = [] \<Longrightarrow>
     trace (start_next c) = trace c \<and> pending (jobQueue (start_next c)) = []
       \<and> phase (jobQueue (start_next c)) = Idle"
  by (simp add: start_next_def)

lemma start_next_Cons:
  "pending (jobQueue c) = jt # rest \<Longrightarrow>
     trace (start_next c) = trace c @ signal ''typingOn'' (session c) (fst jt)
       \<and> pending (jobQueue (start_next c)) = rest
       \<and> phase (jobQueue (start_next c)) = AwaitBefore jt"
  by (simp add: start_next_def)

lemma enqueue_fields [simp]:
  "session (enqueue jt c) = session c"
  "messageDelay (enqueue jt c) = messageDelay c"
  "deferreds (enqueue jt c) = deferreds c"
  by (simp_all add: enqueue_def Let_def split: phase.splits)

lemma enqueue_idle:
  "idle c \<Longrightarrow>
     trace (enqueue jt c) = trace c @ signal ''typingOn'' (session c) (fst jt)
       \<and> pending (jobQueue (enqueue jt c)) = []
       \<and> phase (jobQueue (enqueue jt c)) = AwaitBefore jt"
  by (simp add: enqueue_def idle_def Let_def start_next_def split: phase.splits)

lemma enqueue_busy:
  "phase (jobQueue c) \<noteq> Idle \<Longrightarrow>
     trace (enqueue jt c) = trace c
       \<and> pending (jobQueue (enqueue jt c)) = pending (jobQueue c) @ [jt]
       \<and> phase (jobQueue (enqueue jt c)) = phase (jobQueue c)"
  by (simp add: enqueue_def Let_def split: phase.splits)

lemma held_start_next: "held (start_next c) = pending (jobQueue c)"
  by (simp add: held_def start_next_def split: list.splits)

lemma held_enqueue: "held (enqueue jt c) = held c @ [jt]"
  by (simp add: held_def enqueue_def Let_def start_next_def split: phase.splits list.splits)

lemma signal_bound:
  "warnings (signal name (Some u) j) = []"
  by (simp add: signal_def)

lemma warnings_start_next:
  "session c = Some u \<Longrightarrow> warnings (trace (start_next c)) = warnings (trace c)"
  by (simp add: start_next_def signal_bound split: list.splits)

lemma warnings_enqueue:
  "session c = Some u \<Longrightarrow> warnings (trace (enqueue jt c)) = warnings (trace c)"
  by (simp add: enqueue_def Let_def warnings_start_next split: phase.splits)

lemma ctx_enqueue_fields [simp]:
  "fst (ctx_enqueue j c) = Deferred (deferreds c)"
  "session (snd (ctx_enqueue j c)) = session c"
  "messageDelay (snd (ctx_enqueue j c)) = messageDelay c"
  "deferreds (snd (ctx_enqueue j c)) = Suc (deferreds c)"
  by (simp_all add: ctx_enqueue_def)

lemma ends_with_append: "ends_with sfx (name @ sfx)"
  by (simp add: ends_with_def)

lemma ends_with_last: "ends_with sfx s \<Longrightarrow> sfx \<noteq> [] \<Longrightarrow> last s = last sfx"
  unfolding ends_with_def by (metis last_drop drop_eq_Nil not_le)

lemma is_deprecation_deprecated: "is_deprecation (deprecated name)"
  by (simp add: is_deprecation_def deprecated_def ends_with_append)

lemma not_deprecation_without_session: "\<not> is_deprecation (without_session name)"
proof
  assume "is_deprecation (without_session name)"
  then have "last (without_session name) = last '' is deprecated.''"
    unfolding is_deprecation_def by (rule ends_with_last) simp
  then show False by (simp add: without_session_def)
qed

lemma run_call_timer:
  assumes "idle c" and "perform x c = Some (ctx_enqueue j c)"
  shows "\<exists>c'. run [Call x, Resume TimerFired] c = Some c'
           \<and> trace c' = trace c @ signal ''typingOn'' (session c) j
                 @ [Sleep (delay j), Invoke (deferreds c) (method j) (args j)]"
proof -
  have "idle (c\<lparr>deferreds := Suc (deferreds c)\<rparr>)"
    using assms(1) by (simp add: idle_def)
  from enqueue_idle [OF this, of "(j, deferreds c)"] show ?thesis
    using assms(2) by (simp add: ctx_enqueue_def)
qed

lemma enqueue_setMessageDelay:
  "enqueue jt (setMessageDelay d c) = setMessageDelay d (enqueue jt c)"
  by (simp add: enqueue_def start_next_def beforeEach_hook_def typingOn_def emit_def
        warning_def setMessageDelay_def Let_def
      split: phase.splits list.splits option.splits)

lemma ctx_enqueue_setMessageDelay:
  "ctx_enqueue j (setMessageDelay d c)
     = (fst (ctx_enqueue j c), setMessageDelay d (snd (ctx_enqueue j c)))"
  by (simp add: ctx_enqueue_def enqueue_def start_next_def beforeEach_hook_def typingOn_def
        emit_def warning_def setMessageDelay_def Let_def
      split: phase.splits list.splits option.splits)

lemma setMessageDelay_restore:
  "messageDelay c' = ms \<Longrightarrow> setMessageDelay ms (setMessageDelay d c') = c'"
  by (simp add: setMessageDelay_def)

lemma held_deferreds [simp]: "held (c\<lparr>deferreds := n\<rparr>) = held c"
  by (simp add: held_def)

lemma held_ctx_enqueue: "held (snd (ctx_enqueue j c)) = held c @ [(j, deferreds c)]"
  by (simp add: ctx_enqueue_def held_enqueue)

lemma held_emit [simp]: "held (emit e c) = held c"
  by (simp add: held_def)

lemma held_typing [simp]:
  "held (snd (typingOn c)) = held c" "held (snd (typingOff c)) = held c"
  by (simp_all add: typingOn_def typingOff_def warning_def split: option.splits)

lemma held_warning [simp]: "held (warning msg c) = held c"
  by (simp add: warning_def)

lemma held_set_phase: "held (set_phase p c) = current p @ pending (jobQueue c)"
  by (simp add: held_def)

lemma held_after_hook [simp]: "held (after_hook j c) = held c"
  by (simp add: after_hook_def)

lemma perform_held:
  assumes "perform x c = Some r"
  shows "held (snd r) = held c
         \<or> (\<exists>j. held (snd r) = held c @ [(j, deferreds c)] \<and> showIndicators j = Some True)"
proof (cases "session c")
  case None
  with assms show ?thesis
    by (cases x)
       (auto simp: sendText_def sendTextWithDelay_def send_method_def
          send_methodWithDelay_def Let_def split: if_splits)
next
  case (Some u)
  with assms show ?thesis
    by (cases x)
       (auto simp: sendText_def sendTextWithDelay_def send_method_def
          send_methodWithDelay_def held_ctx_enqueue Let_def split: if_splits)
qed

lemma resume_held:
  assumes "resume r c = Some c'"
  shows "held c' = held c \<or> held c' = tl (held c)"
proof (cases r)
  case TimerFired
  with assms show ?thesis
    by (auto simp: held_set_phase split: phase.splits) (simp add: held_def)
next
  case (ActionSettled x)
  with assms show ?thesis
    by (auto simp: held_set_phase split: phase.splits) (simp add: held_def)
next
  case AfterDone
  with assms show ?thesis
    by (auto simp: held_start_next split: phase.splits) (simp add: held_def)
qed

lemma warnings_ctx_enqueue:
  "session c = Some u \<Longrightarrow> warnings (trace (snd (ctx_enqueue j c))) = warnings (trace c)"
proof -
  assume "session c = Some u"
  then have "session (c\<lparr>deferreds := Suc (deferreds c)\<rparr>) = Some u"
    by simp
  from warnings_enqueue [OF this] show ?thesis
    by (simp add: ctx_enqueue_def)
qed

lemma deprecations_sendTextWithDelay:
  "filter is_deprecation (warnings (trace (snd (sendTextWithDelay d t c))))
     = filter is_deprecation (warnings (trace c))"
  by (cases "session c")
     (simp_all add: sendTextWithDelay_def not_deprecation_without_session
        warnings_ctx_enqueue)

lemma deprecations_send_method:
  "filter is_deprecation (warnings (trace (snd (send_method m as c))))
     = filter is_deprecation (warnings (trace c))"
  by (cases "session c")
     (simp_all add: send_method_def not_deprecation_without_session warnings_ctx_enqueue)

lemma deprecations_send_methodWithDelay:
  "filter is_deprecation (warnings (trace (snd (send_methodWithDelay m d rest c))))
     = filter is_deprecation (warnings (trace c)) @ [deprecated (m @ ''WithDelay'')]"
  by (cases "session c")
     (simp_all add: send_methodWithDelay_def Let_def not_deprecation_without_session
        is_deprecation_deprecated warnings_ctx_enqueue)

lemma deprecations_perform:
  assumes "perform x c = Some r"
  shows "filter is_deprecation (warnings (trace (snd r)))
          = filter is_deprecation (warnings (trace c))
              @ (case x of
                   SendWithDelay m d rest \<Rightarrow> [deprecated (m @ ''WithDelay'')]
                 | _ \<Rightarrow> [])"
proof (cases x)
  case (SendText t opts)
  with assms show ?thesis
    by (cases "session c")
       (auto simp: sendText_def not_deprecation_without_session warnings_ctx_enqueue)
next
  case (SendTextWithDelay d t)
  with assms show ?thesis
    by (auto simp: deprecations_sendTextWithDelay)
next
  case TypingOn
  with assms show ?thesis
    by (cases "session c") (auto simp: typingOn_def not_deprecation_without_session)
next
  case TypingOff
  with assms show ?thesis
    by (cases "session c") (auto simp: typingOff_def not_deprecation_without_session)
next
  case (Send m as)
  with assms show ?thesis
    by (auto simp: deprecations_send_method split: if_splits)
next
  case (SendWithDelay m d rest)
  with assms show ?thesis
    by (auto simp: deprecations_send_methodWithDelay split: if_splits)
qed

lemma step_held:
  assumes "public_input i" and "step i c = Some c'"
    and "list_all (\<lambda>jt. showIndicators (fst jt) = Some True) (held c)"
  shows "list_all (\<lambda>jt. showIndicators (fst jt) = Some True) (held c')"
proof (cases i)
  case (Call x)
  with assms(2) obtain r where r: "perform x c = Some r" "c' = snd r"
    by auto
  from perform_held [OF r(1)] r(2) assms(3) show ?thesis
    by auto
next
  case (Enqueue j)
  with assms(1) show ?thesis by simp
next
  case (Resume r)
  with assms(2) have "held c' = held c \<or> held c' = tl (held c)"
    by (simp add: resume_held)
  with assms(3) show ?thesis
    by (cases "held c") auto
qed

lemma run_held:
  assumes "list_all public_input ins" and "run ins c = Some c'"
    and "list_all (\<lambda>jt. showIndicators (fst jt) = Some True) (held c)"
  shows "list_all (\<lambda>jt. showIndicators (fst jt) = Some True) (held c')"
  using assms
proof (induction ins arbitrary: c)
  case Nil
  then show ?case by simp
next
  case (Cons i ins)
  from Cons.prems(2) obtain c1 where c1: "step i c = Some c1" "run ins c1 = Some c'"
    by (auto split: option.splits)
  from Cons.prems(1) have "public_input i" "list_all public_input ins"
    by simp_all
  from Cons.IH [OF this(2) c1(2) step_held [OF this(1) c1(1) Cons.prems(3)]]
  show ?case .
qed

lemma run_snoc:
  "run (ins @ [i]) c = (case run ins c of None \<Rightarrow> None | Some c' \<Rightarrow> step i c')"
  by (induction ins arbitrary: c) (simp_all split: option.splits)

lemma enqueued_snoc:
  "enqueued d (ins @ [i])
     = enqueued d ins
         @ (case i of Enqueue j \<Rightarrow> [(j, d + length (enqueued d ins))] | _ \<Rightarrow> [])"
  by (induction d ins rule: enqueued.induct) (simp_all split: input.splits)

lemma outcomes_snoc:
  "outcomes (ins @ [i])
     = outcomes ins @ (case i of Resume (ActionSettled r) \<Rightarrow> [r] | _ \<Rightarrow> [])"
  by (induction ins rule: outcomes.induct) (simp_all split: input.splits resumption.splits)

lemma completed_snoc:
  "completed (ins @ [i])
     = completed ins + (case i of Resume AfterDone \<Rightarrow> 1 | _ \<Rightarrow> 0)"
  by (induction ins rule: completed.induct) (simp_all split: input.splits resumption.splits)

lemma serial_snoc:
  "length jts = length rs \<Longrightarrow>
     serial s (jts @ [jt]) (rs @ [r]) = serial s jts rs @ job_events s jt r"
  by (simp add: serial_def)

lemma queue_inv_init: "idle c0 \<Longrightarrow> queue_inv c0 [] c0"
  by (simp add: queue_inv_def idle_def held_def serial_def)

lemma queue_inv_enqueue:
  assumes "queue_inv c0 ins c"
  shows "queue_inv c0 (ins @ [Enqueue j]) (snd (ctx_enqueue j c))"
proof -
  let ?js = "enqueued (deferreds c0) ins"
  let ?k = "completed ins"
  let ?jt = "(j, deferreds c)"
  let ?c1 = "c\<lparr>deferreds := Suc (deferreds c)\<rparr>"
  let ?c' = "enqueue ?jt ?c1"
  have inv: "session c = session c0" "deferreds c = deferreds c0 + length ?js"
    "?k \<le> length ?js" "held c = drop ?k ?js"
    "length (outcomes ins) = ?k + settled (phase (jobQueue c))"
    "phase_ok (phase (jobQueue c)) (pending (jobQueue c)) (outcomes ins)"
    "trace c = trace c0 @ serial (session c0) (take ?k ?js) (take ?k (outcomes ins))
            @ in_hand (session c0) (phase (jobQueue c))"
    using assms by (simp_all add: queue_inv_def)
  have js': "enqueued (deferreds c0) (ins @ [Enqueue j]) = ?js @ [?jt]"
    by (simp add: enqueued_snoc inv(2))
  have held': "held ?c' = drop ?k (?js @ [?jt])"
    using inv(3,4) by (simp add: held_enqueue)
  have take': "take ?k (?js @ [?jt]) = take ?k ?js"
    using inv(3) by simp
  have rest: "settled (phase (jobQueue ?c')) = settled (phase (jobQueue c))
      \<and> phase_ok (phase (jobQueue ?c')) (pending (jobQueue ?c')) (outcomes ins)
      \<and> trace ?c' = trace c0 @ serial (session c0) (take ?k ?js) (take ?k (outcomes ins))
            @ in_hand (session c0) (phase (jobQueue ?c'))"
  proof (cases "phase (jobQueue c) = Idle")
    case True
    with inv(6) have "idle ?c1"
      by (simp add: idle_def)
    from enqueue_idle [OF this, of ?jt] True inv(1,7) show ?thesis
      by simp
  next
    case False
    then have "phase (jobQueue ?c1) \<noteq> Idle"
      by simp
    from enqueue_busy [OF this, of ?jt] False inv(6,7) show ?thesis
      by (cases "phase (jobQueue c)") simp_all
  qed
  show ?thesis
    unfolding queue_inv_def ctx_enqueue_def snd_conv js'
    using inv(1,2,3,5) held' take' rest
    by (simp add: outcomes_snoc completed_snoc)
qed

lemma queue_inv_resume:
  assumes "queue_inv c0 ins c" and "resume x c = Some c'"
  shows "queue_inv c0 (ins @ [Resume x]) c'"
proof -
  let ?js = "enqueued (deferreds c0) ins"
  let ?rs = "outcomes ins"
  let ?k = "completed ins"
  let ?s = "session c0"
  have inv: "session c = ?s" "deferreds c = deferreds c0 + length ?js"
    "?k \<le> length ?js" "held c = drop ?k ?js"
    "length ?rs = ?k + settled (phase (jobQueue c))"
    "phase_ok (phase (jobQueue c)) (pending (jobQueue c)) ?rs"
    "trace c = trace c0 @ serial ?s (take ?k ?js) (take ?k ?rs) @ in_hand ?s (phase (jobQueue c))"
    using assms(1) by (simp_all add: queue_inv_def)
  have js': "enqueued (deferreds c0) (ins @ [Resume x]) = ?js"
    by (simp add: enqueued_snoc)
  show ?thesis
  proof (cases x)
    case TimerFired
    with assms(2) obtain jt where ph: "phase (jobQueue c) = AwaitBefore jt"
      and c': "c' = set_phase (AwaitAction jt)
                 (emit (Invoke (snd jt) (method (fst jt)) (args (fst jt)))
                    (emit (Sleep (delay (fst jt))) c))"
      by (auto split: phase.splits)
    have "held c' = held c"
      using ph c' by (simp add: held_set_phase) (simp add: held_def)
    with inv ph c' TimerFired show ?thesis
      unfolding queue_inv_def js'
      by (simp add: outcomes_snoc completed_snoc)
  next
    case (ActionSettled r)
    with assms(2) obtain jt where ph: "phase (jobQueue c) = AwaitAction jt"
      and c': "c' = set_phase (AwaitAfter jt r) (after_hook (fst jt) c)"
      by (auto split: phase.splits)
    have "held c' = held c"
      using ph c' by (simp add: held_set_phase) (simp add: held_def)
    with inv ph c' ActionSettled show ?thesis
      unfolding queue_inv_def js'
      by (simp add: outcomes_snoc completed_snoc)
  next
    case AfterDone
    with assms(2) obtain jt r where ph: "phase (jobQueue c) = AwaitAfter jt r"
      and c': "c' = start_next (emit (Deliver (snd jt) r) c)"
      by (auto split: phase.splits)
    let ?e = "emit (Deliver (snd jt) r) c"
    from inv(4) ph have dr: "drop ?k ?js = jt # pending (jobQueue c)"
      by (simp add: held_def)
    have lt: "?k < length ?js"
      using dr by (cases "?k < length ?js") simp_all
    from dr have nth: "?js ! ?k = jt"
      using hd_drop_conv_nth [OF lt] by simp
    from inv(5) ph have len: "length ?rs = Suc ?k"
      by simp
    from inv(6) ph have lst: "last ?rs = r"
      by simp
    have ne: "?rs \<noteq> []"
      using len by auto
    have "take ?k ?rs = butlast ?rs"
      using len by (simp add: butlast_conv_take)
    with lst len append_butlast_last_id [OF ne]
    have rs: "take (Suc ?k) ?rs = take ?k ?rs @ [r]"
      by simp
    have tk: "take (Suc ?k) ?js = take ?k ?js @ [jt]"
      using lt nth by (simp add: take_Suc_conv_app_nth)
    have ser: "serial ?s (take (Suc ?k) ?js) (take (Suc ?k) ?rs)
                 = serial ?s (take ?k ?js) (take ?k ?rs) @ job_events ?s jt r"
      unfolding rs tk using lt len by (intro serial_snoc) simp
    have tr: "trace ?e = trace c0 @ serial ?s (take (Suc ?k) ?js) (take (Suc ?k) ?rs)"
      unfolding ser using inv(7) ph by (simp add: job_events_def)
    have pe: "pending (jobQueue ?e) = pending (jobQueue c)"
      by simp
    have "drop (Suc ?k) ?js = tl (drop ?k ?js)"
      by (simp add: drop_Suc tl_drop)
    with dr c' have hd': "held c' = drop (Suc ?k) ?js"
      by (simp add: held_start_next)
    have fin: "settled (phase (jobQueue c')) = 0
        \<and> phase_ok (phase (jobQueue c')) (pending (jobQueue c')) ?rs
        \<and> trace c' = trace ?e @ in_hand ?s (phase (jobQueue c'))"
    proof (cases "pending (jobQueue c)")
      case Nil
      with pe have "pending (jobQueue ?e) = []"
        by simp
      from start_next_Nil [OF this] c' show ?thesis
        by simp
    next
      case (Cons jt' rest)
      with pe have "pending (jobQueue ?e) = jt' # rest"
        by simp
      from start_next_Cons [OF this] c' inv(1) show ?thesis
        by simp
    qed
    from inv(1,2) lt len hd' fin tr c' AfterDone show ?thesis
      unfolding queue_inv_def js'
      by (simp add: outcomes_snoc completed_snoc)
  qed
qed

lemma queue_inv_step:
  assumes "queue_inv c0 ins c" and "queue_input i" and "step i c = Some c'"
  shows "queue_inv c0 (ins @ [i]) c'"
proof (cases i)
  case (Call x)
  with assms(2) show ?thesis by simp
next
  case (Enqueue j)
  with assms(3) have "c' = snd (ctx_enqueue j c)"
    by simp
  with queue_inv_enqueue [OF assms(1), of j] Enqueue show ?thesis
    by simp
next
  case (Resume x)
  with assms(3) have "resume x c = Some c'"
    by simp
  from queue_inv_resume [OF assms(1) this] Resume show ?thesis
    by simp
qed

lemma queue_inv_run:
  assumes "idle c0"
  shows "list_all queue_input ins \<Longrightarrow> run ins c0 = Some c \<Longrightarrow> queue_inv c0 ins c"
proof (induction ins arbitrary: c rule: rev_induct)
  case Nil
  with assms show ?case
    by (simp add: queue_inv_init)
next
  case (snoc i ins)
  from snoc.prems(2) obtain c1 where c1: "run ins c0 = Some c1" "step i c1 = Some c"
    by (auto simp: run_snoc split: option.splits)
  from snoc.prems(1) have q: "list_all queue_input ins" "queue_input i"
    by simp_all
  from queue_inv_step [OF snoc.IH [OF q(1) c1(1)] q(2) c1(2)] show ?case .
qed

lemma invocations_append [simp]:
  "invocations (xs @ ys) = invocations xs @ invocations ys"
  by (induction xs rule: invocations.induct) simp_all

lemma invocations_signal [simp]: "invocations (signal name s j) = []"
  by (simp add: signal_def split: option.splits)

lemma invocations_job_events [simp]: "invocations (job_events s jt r) = [call_of jt]"
  by (simp add: job_events_def call_of_def)

lemma invocations_serial:
  "length jts = length rs \<Longrightarrow> invocations (serial s jts rs) = map call_of jts"
  by (induction jts rs rule: list_induct2) (simp_all add: serial_def)

lemma invocations_in_hand:
  "held c = jt # rest \<Longrightarrow> phase (jobQueue c) \<noteq> Idle \<Longrightarrow>
     invocations (in_hand s (phase (jobQueue c)))
       = map call_of (take (invoked (phase (jobQueue c))) (jt # rest))"
  by (cases "phase (jobQueue c)") (simp_all add: held_def call_of_def)

lemma resume_enabled:
  "phase (jobQueue c) \<noteq> Idle \<Longrightarrow> \<exists>x c'. resume x c = Some c'"
proof (cases "phase (jobQueue c)")
  case Idle
  moreover assume "phase (jobQueue c) \<noteq> Idle"
  ultimately show ?thesis by simp
next
  case (AwaitBefore jt)
  then have "\<exists>c'. resume TimerFired c = Some c'" by simp
  then show ?thesis by blast
next
  case (AwaitAction jt)
  then have "\<exists>c'. resume (ActionSettled (Fulfilled JUndefined)) c = Some c'" by simp
  then show ?thesis by blast
next
  case (AwaitAfter jt r)
  then have "\<exists>c'. resume AfterDone c = Some c'" by simp
  then show ?thesis by blast
qed

lemma typing_session [simp]:
  "session (snd (typingOn c)) = session c" "session (snd (typingOff c)) = session c"
  by (simp_all add: typingOn_def typingOff_def split: option.splits)

lemma perform_session:
  "perform x c = Some r \<Longrightarrow> session (snd r) = session c"
  by (cases x; cases "session c")
     (auto simp: sendText_def sendTextWithDelay_def send_method_def send_methodWithDelay_def
        Let_def split: if_splits)

lemma resume_session:
  "resume x c = Some c' \<Longrightarrow> session c' = session c"
  by (cases x) (auto split: phase.splits)

lemma perform_held_absent:
  "session c = None \<Longrightarrow> perform x c = Some r \<Longrightarrow> held (snd r) = held c"
  by (cases x)
     (auto simp: sendText_def sendTextWithDelay_def send_method_def send_methodWithDelay_def
        Let_def split: if_splits)

lemma step_session_held:
  assumes "public_input i" and "step i c = Some c'" and "held c \<noteq> [] \<longrightarrow> session c \<noteq> None"
  shows "session c' = session c \<and> (held c' \<noteq> [] \<longrightarrow> session c' \<noteq> None)"
proof (cases i)
  case (Call x)
  with assms(2) obtain r where r: "perform x c = Some r" "c' = snd r"
    by auto
  from perform_session [OF r(1)] perform_held_absent [OF _ r(1)] r(2) assms(3)
  show ?thesis
    by (cases "session c") auto
next
  case (Enqueue j)
  with assms(1) show ?thesis by simp
next
  case (Resume x)
  with assms(2) have r: "resume x c = Some c'"
    by simp
  from resume_held [OF r] have "held c' \<noteq> [] \<longrightarrow> held c \<noteq> []"
    by (cases "held c") auto
  with resume_session [OF r] assms(3) show ?thesis
    by simp
qed

lemma run_session_held:
  assumes "list_all public_input ins" and "run ins c = Some c'"
    and "held c \<noteq> [] \<longrightarrow> session c \<noteq> None"
  shows "session c' = session c \<and> (held c' \<noteq> [] \<longrightarrow> session c' \<noteq> None)"
  using assms
proof (induction ins arbitrary: c)
  case Nil
  then show ?case by simp
next
  case (Cons i ins)
  from Cons.prems(2) obtain c1 where c1: "step i c = Some c1" "run ins c1 = Some c'"
    by (auto split: option.splits)
  from Cons.prems(1) have p: "public_input i" "list_all public_input ins"
    by simp_all
  from step_session_held [OF p(1) c1(1) Cons.prems(3)]
  have s: "session c1 = session c" "held c1 \<noteq> [] \<longrightarrow> session c1 \<noteq> None"
    by blast+
  from Cons.IH [OF p(2) c1(2) s(2)]
  have "session c' = session c1" and "held c' \<noteq> [] \<longrightarrow> session c' \<noteq> None"
    by blast+
  with s(1) show ?case
    by metis
qed

lemma run_from_idle:
  assumes "idle c"
  shows "\<exists>c'. run [Enqueue j, Resume TimerFired, Resume (ActionSettled r)] c = Some c'
           \<and> trace c' = trace c @ signal ''typingOn'' (session c) j
                 @ [Sleep (delay j), Invoke (deferreds c) (method j) (args j)]
                 @ signal ''typingOff'' (session c) j"
proof -
  have "idle (c\<lparr>deferreds := Suc (deferreds c)\<rparr>)"
    using assms by (simp add: idle_def)
  from enqueue_idle [OF this, of "(j, deferreds c)"] show ?thesis
    by (simp add: ctx_enqueue_def)
qed

lemma run_from_queue:
  assumes "phase (jobQueue c) = AwaitAfter prev r0" and "pending (jobQueue c) = (j, n) # rest"
  shows "\<exists>c'. run [Resume AfterDone, Resume TimerFired, Resume (ActionSettled r)] c = Some c'
           \<and> trace c' = trace c @ [Deliver (snd prev) r0]
                 @ signal ''typingOn'' (session c) j
                 @ [Sleep (delay j), Invoke n (method j) (args j)]
                 @ signal ''typingOff'' (session c) j
           \<and> phase (jobQueue c') = AwaitAfter (j, n) r
           \<and> pending (jobQueue c') = rest"
proof -
  have "pending (jobQueue (emit (Deliver (snd prev) r0) c)) = (j, n) # rest"
    using assms(2) by simp
  from start_next_Cons [OF this] assms(1) show ?thesis
    by simp
qed

lemma sample_context:
  "session (new_MessengerContext (Some alice)) = Some alice"
  "messageDelay (new_MessengerContext (Some alice)) = 1000"
  "deferreds (new_MessengerContext (Some alice)) = 0"
  "trace (new_MessengerContext (Some alice)) = []"
  "idle (new_MessengerContext (Some alice))"
  "held (new_MessengerContext (Some alice)) = []"
  by (simp_all add: new_MessengerContext_def setMessageDelay_def idle_def held_def)

lemma sample_signals:
  "signal name (Some alice) hello = [ClientCall name [JStr ''u1'']]"
  "signal name s quiet = []"
  by (simp_all add: signal_def indicators_def hello_def quiet_def alice_def)

lemma run_after_rejection:
  assumes "phase (jobQueue c) = AwaitAction (jK, nK)"
    and "pending (jobQueue c) = (jN, nN) # rest"
  shows "\<exists>c'. run [Resume (ActionSettled (Failed e)), Resume AfterDone, Resume TimerFired,
                   Resume (ActionSettled r), Resume AfterDone] c = Some c'
           \<and> trace c' = trace c @ signal ''typingOff'' (session c) jK @ [Deliver nK (Failed e)]
                 @ job_events (session c) (jN, nN) r
                 @ (case rest of [] \<Rightarrow> [] | jt # jts \<Rightarrow> signal ''typingOn'' (session c) (fst jt))
           \<and> held c' = rest"
proof -
  let ?c1 = "set_phase (AwaitAfter (jK, nK) (Failed e)) (after_hook jK c)"
  have 1: "resume (ActionSettled (Failed e)) c = Some ?c1"
    using assms(1) by simp
  let ?c2 = "start_next (emit (Deliver nK (Failed e)) ?c1)"
  have 2: "resume AfterDone ?c1 = Some ?c2"
    by simp
  have "pending (jobQueue (emit (Deliver nK (Failed e)) ?c1)) = (jN, nN) # rest"
    using assms(2) by simp
  note s2 = start_next_Cons [OF this]
  let ?c3 = "set_phase (AwaitAction (jN, nN))
               (emit (Invoke nN (method jN) (args jN)) (emit (Sleep (delay jN)) ?c2))"
  have 3: "resume TimerFired ?c2 = Some ?c3"
    using s2 by simp
  let ?c4 = "set_phase (AwaitAfter (jN, nN) r) (after_hook jN ?c3)"
  have 4: "resume (ActionSettled r) ?c3 = Some ?c4"
    by simp
  let ?c5 = "start_next (emit (Deliver nN r) ?c4)"
  have 5: "resume AfterDone ?c4 = Some ?c5"
    by simp
  have t4: "trace ?c4 = trace c @ signal ''typingOff'' (session c) jK @ [Deliver nK (Failed e)]
                 @ signal ''typingOn'' (session c) jN
                 @ [Sleep (delay jN), Invoke nN (method jN) (args jN)]
                 @ signal ''typingOff'' (session c) jN"
    using s2 by simp
  have p4: "pending (jobQueue (emit (Deliver nN r) ?c4)) = rest"
    using s2 by simp
  have s4: "session (emit (Deliver nN r) ?c4) = session c"
    by simp
  have t5: "trace ?c5 = trace c @ signal ''typingOff'' (session c) jK @ [Deliver nK (Failed e)]
                 @ job_events (session c) (jN, nN) r
                 @ (case rest of [] \<Rightarrow> [] | jt # jts \<Rightarrow> signal ''typingOn'' (session c) (fst jt))"
  proof (cases rest)
    case Nil
    with p4 have "pending (jobQueue (emit (Deliver nN r) ?c4)) = []"
      by simp
    from start_next_Nil [OF this] t4 Nil show ?thesis
      by (simp add: job_events_def)
  next
    case (Cons jt jts)
    with p4 have "pending (jobQueue (emit (Deliver nN r) ?c4)) = jt # jts"
      by simp
    from start_next_Cons [OF this] t4 Cons s4 show ?thesis
      by (simp add: job_events_def)
  qed
  have h5: "held ?c5 = rest"
    using p4 by (simp only: held_start_next)
  have "run [Resume (ActionSettled (Failed e)), Resume AfterDone, Resume TimerFired,
                   Resume (ActionSettled r), Resume AfterDone] c = Some ?c5"
    by (simp only: run.simps step.simps 1 2 3 4 5 option.case)
  with t5 h5 show ?thesis
    by blast
qed

lemma run_rejection_then_enqueue:
  assumes "phase (jobQueue c) = AwaitAction (jK, nK)"
    and "pending (jobQueue c) = []"
  shows "\<exists>c'. run [Resume (ActionSettled (Failed e)), Resume AfterDone, Enqueue jN,
                   Resume TimerFired, Resume (ActionSettled r), Resume AfterDone] c = Some c'
           \<and> trace c' = trace c @ signal ''typingOff'' (session c) jK @ [Deliver nK (Failed e)]
                 @ job_events (session c) (jN, deferreds c) r
           \<and> idle c'"
proof -
  let ?c1 = "set_phase (AwaitAfter (jK, nK) (Failed e)) (after_hook jK c)"
  have 1: "resume (ActionSettled (Failed e)) c = Some ?c1"
    using assms(1) by simp
  let ?c2 = "start_next (emit (Deliver nK (Failed e)) ?c1)"
  have 2: "resume AfterDone ?c1 = Some ?c2"
    by simp
  have "pending (jobQueue (emit (Deliver nK (Failed e)) ?c1)) = []"
    using assms(2) by simp
  note s2 = start_next_Nil [OF this]
  have i2: "idle (?c2\<lparr>deferreds := Suc (deferreds ?c2)\<rparr>)"
    using s2 by (simp add: idle_def)
  let ?c3 = "snd (ctx_enqueue jN ?c2)"
  note s3 = enqueue_idle [OF i2, of "(jN, deferreds c)"]
  have d2: "deferreds ?c2 = deferreds c"
    by simp
  have c3: "?c3 = enqueue (jN, deferreds c) (?c2\<lparr>deferreds := Suc (deferreds ?c2)\<rparr>)"
    by (simp only: ctx_enqueue_def snd_conv d2)
  let ?c4 = "set_phase (AwaitAction (jN, deferreds c))
               (emit (Invoke (deferreds c) (method jN) (args jN)) (emit (Sleep (delay jN)) ?c3))"
  have 4: "resume TimerFired ?c3 = Some ?c4"
    unfolding c3 using s3 by simp
  let ?c5 = "set_phase (AwaitAfter (jN, deferreds c) r) (after_hook jN ?c4)"
  have 5: "resume (ActionSettled r) ?c4 = Some ?c5"
    by simp
  let ?c6 = "start_next (emit (Deliver (deferreds c) r) ?c5)"
  have 6: "resume AfterDone ?c5 = Some ?c6"
    by simp
  have t3: "trace ?c3 = trace c @ signal ''typingOff'' (session c) jK @ [Deliver nK (Failed e)]
              @ signal ''typingOn'' (session c) jN"
    unfolding c3 using s3 s2 by simp
  have p3: "pending (jobQueue ?c3) = []" and se3: "session ?c3 = session c"
    unfolding c3 using s3 by simp_all
  have p5: "pending (jobQueue (emit (Deliver (deferreds c) r) ?c5)) = []"
    using p3 by simp
  from start_next_Nil [OF p5] t3 se3
  have t6: "trace ?c6 = trace c @ signal ''typingOff'' (session c) jK @ [Deliver nK (Failed e)]
                 @ job_events (session c) (jN, deferreds c) r"
    and i6: "idle ?c6"
    by (simp_all add: job_events_def idle_def)
  have "run [Resume (ActionSettled (Failed e)), Resume AfterDone, Enqueue jN,
                   Resume TimerFired, Resume (ActionSettled r), Resume AfterDone] c = Some ?c6"
    by (simp only: run.simps step.simps 1 2 4 5 6 option.case)
  with t6 i6 show ?thesis
    by blast
qed

lemma typing_defined:
  "\<exists>p c'. typing cl ms c = Some (p, c')
      \<and> jobQueue c' = jobQueue c \<and> deferreds c' = deferreds c
      \<and> (case session c of
            None \<Rightarrow>
              p = Settled (Fulfilled JUndefined)
              \<and> trace c' = trace c @ [Warning (without_session ''typingOn''), Sleep ms,
                                       Warning (without_session ''typingOff'')]
          | Some s \<Rightarrow>
              (case cl ''typingOn'' [JStr (user_id (user s))] of
                 Failed e \<Rightarrow>
                   p = Settled (Failed e)
                   \<and> trace c' = trace c @ [ClientCall ''typingOn'' [JStr (user_id (user s))]]
               | Fulfilled v \<Rightarrow>
                   p = Settled (case cl ''typingOff'' [JStr (user_id (user s))] of
                                  Failed e \<Rightarrow> Failed e
                                | Fulfilled w \<Rightarrow> Fulfilled JUndefined)
                   \<and> trace c' = trace c @ [ClientCall ''typingOn'' [JStr (user_id (user s))],
                                            Sleep ms,
                                            ClientCall ''typingOff'' [JStr (user_id (user s))]]))"
  by (simp add: typing_def typingOn_def typingOff_def split: option.splits outcome.splits)

lemma typing_ignores_queue:
  "typing cl ms (c\<lparr>jobQueue := q\<rparr>)
     = map_option (\<lambda>(p, c'). (p, c'\<lparr>jobQueue := q\<rparr>)) (typing cl ms c)"
  by (simp add: typing_def typingOn_def typingOff_def emit_def warning_def
      split: option.splits outcome.splits)

section \<open>Operations on a context without session\<close>

text \<open>
  Claim C2. Every session-scoped operation (\<^verbatim>\<open>sendText\<close>, \<^verbatim>\<open>sendTextWithDelay\<close>,
  \<^verbatim>\<open>typingOn\<close>, \<^verbatim>\<open>typingOff\<close>, every generated send method and its
  \<^verbatim>\<open>WithDelay\<close> variant), called on a context whose session is absent, emits the
  session-missing warning that carries its own name, makes no call to the platform
  client, and returns a promise that is already resolved (with \<^verbatim>\<open>undefined\<close>). The
  queue is not touched and no deferred is made. A generated \<^verbatim>\<open>WithDelay\<close> variant emits
  its deprecation warning first; every other operation emits the one warning only.
\<close>

theorem session_missing_is_noop:
  assumes "session c = None" and "defined x"
  shows "\<exists>c'. perform x c = Some (Settled (Fulfilled JUndefined), c')
           \<and> (case x of
                 SendWithDelay m d rest \<Rightarrow>
                   trace c' = trace c @ [Warning (deprecated (op_name x)),
                                         Warning (without_session (op_name x))]
               | _ \<Rightarrow> trace c' = trace c @ [Warning (without_session (op_name x))])
           \<and> client_calls (trace c') = client_calls (trace c)
           \<and> jobQueue c' = jobQueue c \<and> deferreds c' = deferreds c"
  using assms
  by (cases x)
     (simp_all add: sendText_def sendTextWithDelay_def typingOn_def typingOff_def
        send_method_def send_methodWithDelay_def)

theorem session_missing_is_noop_witness:
  "session (new_MessengerContext None) = None
   \<and> defined (SendWithDelay ''sendImage'' 250 [JStr ''cat.png''])
   \<and> (\<exists>c'. perform (SendWithDelay ''sendImage'' 250 [JStr ''cat.png''])
               (new_MessengerContext None) = Some (Settled (Fulfilled JUndefined), c')
          \<and> trace c' = [Warning ''sendImageWithDelay is deprecated.'',
                Warning ''sendImageWithDelay: should not be called in context without session'']
          \<and> client_calls (trace c') = []
          \<and> jobQueue c' = \<lparr>pending = [], phase = Idle\<rparr> \<and> deferreds c' = 0)"
  using session_missing_is_noop [of "new_MessengerContext None"
      "SendWithDelay ''sendImage'' 250 [JStr ''cat.png'']"]
  by (simp add: new_MessengerContext_def setMessageDelay_def sendMethods_def
        deprecated_def without_session_def)

section \<open>sendText and sendTextWithDelay\<close>

text \<open>
  Claim C3. On a context with a bound session, \<^verbatim>\<open>sendText(text, options)\<close> enqueues
  the job of method \<^verbatim>\<open>sendText\<close> whose arguments are the session's user id and the
  text, followed by \<open>options\<close> exactly when \<open>options\<close> is truthy, which an object
  always is and a missing argument never; the job's delay is the context's current
  message delay, which the constructor sets to 1000 and \<^verbatim>\<open>setMessageDelay\<close> changes,
  and indicators are requested. When the queue is idle, the call and the end of the
  sleep give, in this order: the typing-on call, the sleep of the message delay, and
  the client's \<^verbatim>\<open>sendText\<close> with exactly those arguments.
\<close>

theorem sendText_enqueues:
  assumes "session c = Some s"
  shows "sendText text options c =
           ctx_enqueue
             \<lparr>method = ''sendText'',
              args = [JStr (user_id (user s)), JStr text]
                       @ (if truthy options then [options] else []),
              delay = messageDelay c,
              showIndicators = Some True\<rparr> c
         \<and> truthy (JObj fs) \<and> \<not> truthy JUndefined
         \<and> messageDelay (new_MessengerContext s0) = 1000
         \<and> messageDelay (setMessageDelay ms c) = ms
         \<and> (idle c \<longrightarrow>
              (\<exists>c'. run [Call (SendText text options), Resume TimerFired] c = Some c'
                 \<and> trace c' = trace c @
                     [ClientCall ''typingOn'' [JStr (user_id (user s))],
                      Sleep (messageDelay c),
                      Invoke (deferreds c) ''sendText''
                        ([JStr (user_id (user s)), JStr text]
                           @ (if truthy options then [options] else []))]))"
proof -
  let ?j = "\<lparr>method = ''sendText'',
             args = [JStr (user_id (user s)), JStr text]
                      @ (if truthy options then [options] else []),
             delay = messageDelay c,
             showIndicators = Some True\<rparr>"
  have eq: "sendText text options c = ctx_enqueue ?j c"
    using assms by (simp add: sendText_def)
  have "\<exists>c'. run [Call (SendText text options), Resume TimerFired] c = Some c'
           \<and> trace c' = trace c @
               [ClientCall ''typingOn'' [JStr (user_id (user s))],
                Sleep (messageDelay c),
                Invoke (deferreds c) ''sendText''
                  ([JStr (user_id (user s)), JStr text]
                     @ (if truthy options then [options] else []))]"
    if "idle c"
    using run_call_timer [OF that, of "SendText text options" ?j] eq assms
    by (simp add: signal_def indicators_def)
  with eq show ?thesis
    by (simp add: new_MessengerContext_def)
qed

theorem sendText_enqueues_witness:
  "session (new_MessengerContext (Some \<lparr>user = \<lparr>user_id = ''u1''\<rparr>\<rparr>))
     = Some \<lparr>user = \<lparr>user_id = ''u1''\<rparr>\<rparr>
   \<and> idle (new_MessengerContext (Some \<lparr>user = \<lparr>user_id = ''u1''\<rparr>\<rparr>))
   \<and> sendText ''hi'' JUndefined (new_MessengerContext (Some \<lparr>user = \<lparr>user_id = ''u1''\<rparr>\<rparr>))
       = ctx_enqueue
           \<lparr>method = ''sendText'', args = [JStr ''u1'', JStr ''hi''], delay = 1000,
            showIndicators = Some True\<rparr>
           (new_MessengerContext (Some \<lparr>user = \<lparr>user_id = ''u1''\<rparr>\<rparr>))
   \<and> (\<exists>c'. run [Call (SendText ''hi'' JUndefined), Resume TimerFired]
               (new_MessengerContext (Some \<lparr>user = \<lparr>user_id = ''u1''\<rparr>\<rparr>)) = Some c'
          \<and> trace c' = [ClientCall ''typingOn'' [JStr ''u1''], Sleep 1000,
                         Invoke 0 ''sendText'' [JStr ''u1'', JStr ''hi'']])"
proof -
  let ?s = "\<lparr>user = \<lparr>user_id = ''u1''\<rparr>\<rparr>"
  let ?c = "new_MessengerContext (Some ?s)"
  have s: "session ?c = Some ?s"
    by (simp add: new_MessengerContext_def)
  have i: "idle ?c"
    by (simp add: new_MessengerContext_def setMessageDelay_def idle_def)
  have d: "messageDelay ?c = 1000" "deferreds ?c = 0" "trace ?c = []"
    by (simp_all add: new_MessengerContext_def)
  from sendText_enqueues [OF s, of "''hi''" JUndefined "[]" None 0] s i d
  show ?thesis
    by (simp del: run.simps)
qed

text \<open>
  Claim C6. On a context with a bound session, \<^verbatim>\<open>sendTextWithDelay(delay, text)\<close>
  enqueues the job that \<^verbatim>\<open>sendText(text)\<close> enqueues, with the delay argument in place
  of the context's message delay: it is \<^verbatim>\<open>sendText(text)\<close> run with the message delay
  set to the argument and set back afterwards. It takes no options: the client's
  \<^verbatim>\<open>sendText\<close> is invoked with exactly the user id and the text.
\<close>

theorem sendTextWithDelay_explicit_delay:
  assumes "session c = Some s"
  shows "sendTextWithDelay d text c =
           ctx_enqueue
             \<lparr>method = ''sendText'',
              args = [JStr (user_id (user s)), JStr text],
              delay = d,
              showIndicators = Some True\<rparr> c
         \<and> sendTextWithDelay d text c =
             (case sendText text JUndefined (setMessageDelay d c) of
                (p, c') \<Rightarrow> (p, setMessageDelay (messageDelay c) c'))
         \<and> (idle c \<longrightarrow>
              (\<exists>c'. run [Call (SendTextWithDelay d text), Resume TimerFired] c = Some c'
                 \<and> trace c' = trace c @
                     [ClientCall ''typingOn'' [JStr (user_id (user s))],
                      Sleep d,
                      Invoke (deferreds c) ''sendText''
                        [JStr (user_id (user s)), JStr text]]))"
proof -
  let ?j = "\<lparr>method = ''sendText'',
             args = [JStr (user_id (user s)), JStr text],
             delay = d,
             showIndicators = Some True\<rparr>"
  have eq: "sendTextWithDelay d text c = ctx_enqueue ?j c"
    using assms by (simp add: sendTextWithDelay_def)
  have st: "sendText text JUndefined (setMessageDelay d c)
              = (fst (ctx_enqueue ?j c), setMessageDelay d (snd (ctx_enqueue ?j c)))"
    using assms by (simp add: sendText_def ctx_enqueue_setMessageDelay)
  have like: "(case sendText text JUndefined (setMessageDelay d c) of
                (p, c') \<Rightarrow> (p, setMessageDelay (messageDelay c) c')) = ctx_enqueue ?j c"
    unfolding st by (simp add: setMessageDelay_restore prod_eq_iff)
  have "\<exists>c'. run [Call (SendTextWithDelay d text), Resume TimerFired] c = Some c'
           \<and> trace c' = trace c @
               [ClientCall ''typingOn'' [JStr (user_id (user s))],
                Sleep d,
                Invoke (deferreds c) ''sendText'' [JStr (user_id (user s)), JStr text]]"
    if "idle c"
    using run_call_timer [OF that, of "SendTextWithDelay d text" ?j] eq assms
    by (simp add: signal_def indicators_def)
  with eq like show ?thesis
    by simp
qed

theorem sendTextWithDelay_explicit_delay_witness:
  "session (new_MessengerContext (Some \<lparr>user = \<lparr>user_id = ''u1''\<rparr>\<rparr>))
     = Some \<lparr>user = \<lparr>user_id = ''u1''\<rparr>\<rparr>
   \<and> idle (new_MessengerContext (Some \<lparr>user = \<lparr>user_id = ''u1''\<rparr>\<rparr>))
   \<and> sendTextWithDelay 250 ''hi'' (new_MessengerContext (Some \<lparr>user = \<lparr>user_id = ''u1''\<rparr>\<rparr>))
       = ctx_enqueue
           \<lparr>method = ''sendText'', args = [JStr ''u1'', JStr ''hi''], delay = 250,
            showIndicators = Some True\<rparr>
           (new_MessengerContext (Some \<lparr>user = \<lparr>user_id = ''u1''\<rparr>\<rparr>))
   \<and> (\<exists>c'. run [Call (SendTextWithDelay 250 ''hi''), Resume TimerFired]
               (new_MessengerContext (Some \<lparr>user = \<lparr>user_id = ''u1''\<rparr>\<rparr>)) = Some c'
          \<and> trace c' = [ClientCall ''typingOn'' [JStr ''u1''], Sleep 250,
                         Invoke 0 ''sendText'' [JStr ''u1'', JStr ''hi'']])"
proof -
  let ?s = "\<lparr>user = \<lparr>user_id = ''u1''\<rparr>\<rparr>"
  let ?c = "new_MessengerContext (Some ?s)"
  have s: "session ?c = Some ?s"
    by (simp add: new_MessengerContext_def)
  have i: "idle ?c"
    by (simp add: new_MessengerContext_def setMessageDelay_def idle_def)
  have d: "deferreds ?c = 0" "trace ?c = []"
    by (simp_all add: new_MessengerContext_def)
  from sendTextWithDelay_explicit_delay [OF s, of 250 "''hi''"] s i d
  show ?thesis
    by (simp del: run.simps)
qed

section \<open>The generated methods\<close>




text \<open>
  Claim C10. \<^verbatim>\<open>sendTextWithDelay\<close> adds no deprecation warning to the trace, with a
  bound session or without one. Among the session-scoped operations, a call adds a
  deprecation warning exactly when it is a generated \<^verbatim>\<open>WithDelay\<close> variant, and then
  the one that carries the variant's name.
\<close>

theorem only_generated_variants_deprecate:
  "filter is_deprecation (warnings (trace (snd (sendTextWithDelay d text c))))
     = filter is_deprecation (warnings (trace c))
   \<and> (perform x c = Some r \<longrightarrow>
        filter is_deprecation (warnings (trace (snd r)))
          = filter is_deprecation (warnings (trace c))
              @ (case x of
                   SendWithDelay m d' rest \<Rightarrow> [deprecated (m @ ''WithDelay'')]
                 | _ \<Rightarrow> []))"
  using deprecations_sendTextWithDelay [of d "text" c] deprecations_perform [of x c r]
  by blast

theorem only_generated_variants_deprecate_witness:
  "filter is_deprecation (warnings (trace (snd
       (sendTextWithDelay 250 ''hi'' (new_MessengerContext None))))) = []
   \<and> perform (SendWithDelay ''sendImage'' 250 [JStr ''cat.png'']) (new_MessengerContext None)
       = Some (send_methodWithDelay ''sendImage'' 250 [JStr ''cat.png'']
                 (new_MessengerContext None))
   \<and> filter is_deprecation (warnings (trace (snd
         (send_methodWithDelay ''sendImage'' 250 [JStr ''cat.png'']
            (new_MessengerContext None)))))
       = [''sendImageWithDelay is deprecated.'']"
proof -
  let ?n = "new_MessengerContext None"
  let ?x = "SendWithDelay ''sendImage'' 250 [JStr ''cat.png'']"
  let ?r = "send_methodWithDelay ''sendImage'' 250 [JStr ''cat.png''] ?n"
  have n: "trace ?n = []"
    by (simp add: new_MessengerContext_def)
  have p: "perform ?x ?n = Some ?r"
    by (simp add: sendMethods_def)
  have w: "deprecated ''sendImageWithDelay'' = ''sendImageWithDelay is deprecated.''"
    by (simp add: deprecated_def)
  from only_generated_variants_deprecate [of 250 "''hi''" ?n ?x ?r] n p w
  show ?thesis
    by simp
qed

section \<open>Indicators of the jobs of the public interface\<close>

text \<open>
  Claim C9. Whatever calls of the public operations and resumptions of the queue a new
  context goes through (no direct call of \<^verbatim>\<open>_enqueue\<close>), every job its queue holds,
  in hand or pending, was made with \<^verbatim>\<open>showIndicators: true\<close>, so both hooks take their
  \<^verbatim>\<open>if (showIndicators)\<close> branch for it: no public operation enqueues a job with the
  indicators suppressed.
\<close>

theorem public_jobs_show_indicators:
  assumes "list_all public_input ins" and "run ins (new_MessengerContext s) = Some c"
  shows "list_all (\<lambda>jt. showIndicators (fst jt) = Some True \<and> indicators (fst jt)) (held c)"
proof -
  have "held (new_MessengerContext s) = []"
    by (simp add: new_MessengerContext_def setMessageDelay_def held_def)
  then have "list_all (\<lambda>jt. showIndicators (fst jt) = Some True) (held (new_MessengerContext s))"
    by simp
  from run_held [OF assms this] show ?thesis
    by (simp add: list_all_iff indicators_def)
qed

theorem public_jobs_show_indicators_witness:
  "list_all public_input
     [Call (SendText ''hi'' JUndefined), Call (SendWithDelay ''sendImage'' 250 [JStr ''cat.png'']),
      Resume TimerFired]
   \<and> (\<exists>c. run [Call (SendText ''hi'' JUndefined),
                Call (SendWithDelay ''sendImage'' 250 [JStr ''cat.png'']), Resume TimerFired]
               (new_MessengerContext (Some \<lparr>user = \<lparr>user_id = ''u1''\<rparr>\<rparr>)) = Some c
          \<and> map fst (held c) =
               [\<lparr>method = ''sendText'', args = [JStr ''u1'', JStr ''hi''], delay = 1000,
                 showIndicators = Some True\<rparr>,
                \<lparr>method = ''sendImage'', args = [JStr ''u1'', JStr ''cat.png''], delay = 250,
                 showIndicators = Some True\<rparr>]
          \<and> list_all (\<lambda>jt. showIndicators (fst jt) = Some True \<and> indicators (fst jt)) (held c))"
proof -
  let ?ins = "[Call (SendText ''hi'' JUndefined),
      Call (SendWithDelay ''sendImage'' 250 [JStr ''cat.png'']), Resume TimerFired]"
  let ?c0 = "new_MessengerContext (Some \<lparr>user = \<lparr>user_id = ''u1''\<rparr>\<rparr>)"
  have p: "list_all public_input ?ins"
    by simp
  obtain c where c: "run ?ins ?c0 = Some c"
    and h: "map fst (held c) =
               [\<lparr>method = ''sendText'', args = [JStr ''u1'', JStr ''hi''], delay = 1000,
                 showIndicators = Some True\<rparr>,
                \<lparr>method = ''sendImage'', args = [JStr ''u1'', JStr ''cat.png''], delay = 250,
                 showIndicators = Some True\<rparr>]"
    by (simp add: new_MessengerContext_def setMessageDelay_def sendText_def
          send_methodWithDelay_def sendMethods_def ctx_enqueue_def enqueue_def start_next_def
          held_def Let_def)
  from public_jobs_show_indicators [OF p c]
  have "list_all (\<lambda>jt. showIndicators (fst jt) = Some True \<and> indicators (fst jt)) (held c)" .
  with p c h show ?thesis
    by (intro conjI exI [of _ c])
qed

section \<open>The queue\<close>

text \<open>
  Claim C1. Take a context whose queue is idle and any schedule of direct enqueues and
  resumptions that it can go through. The trace it adds is the serial run of the jobs
  brought to their end, in the order they were enqueued, followed by the part done of
  the one job in hand: the effects of two jobs never interleave, the before-hook's
  signal and sleep come before the job's action, and the after-hook's signal comes
  after the action has settled (with either outcome) and before the callback and the
  next job. The jobs still held are the rest of the enqueued ones, in order. The calls
  made on the platform client for jobs are those of a prefix of the enqueued jobs, in
  enqueue order; when the queue is idle again, these are all of them. A queue that
  holds a job can always be resumed.
\<close>

theorem queue_runs_fifo_one_job_at_a_time:
  assumes "idle c0" and "list_all queue_input ins" and "run ins c0 = Some c"
  shows "trace c = trace c0
            @ serial (session c0) (take (completed ins) (enqueued (deferreds c0) ins))
                (take (completed ins) (outcomes ins))
            @ in_hand (session c0) (phase (jobQueue c))
         \<and> held c = drop (completed ins) (enqueued (deferreds c0) ins)
         \<and> invocations (trace c) = invocations (trace c0)
              @ map call_of (take (completed ins + invoked (phase (jobQueue c)))
                               (enqueued (deferreds c0) ins))
         \<and> (idle c \<longrightarrow> completed ins = length (enqueued (deferreds c0) ins))
         \<and> (held c \<noteq> [] \<longrightarrow> (\<exists>x c'. resume x c = Some c'))"
proof -
  let ?js = "enqueued (deferreds c0) ins"
  let ?rs = "outcomes ins"
  let ?k = "completed ins"
  let ?s = "session c0"
  let ?ph = "phase (jobQueue c)"
  have "queue_inv c0 ins c"
    using assms by (rule queue_inv_run)
  then have inv: "?k \<le> length ?js" "held c = drop ?k ?js"
    "length ?rs = ?k + settled ?ph"
    "phase_ok ?ph (pending (jobQueue c)) ?rs"
    "trace c = trace c0 @ serial ?s (take ?k ?js) (take ?k ?rs) @ in_hand ?s ?ph"
    by (simp_all add: queue_inv_def)
  have idle_iff: "held c = []" if "?ph = Idle"
    using that inv(4) by (simp add: held_def)
  have len: "length (take ?k ?js) = length (take ?k ?rs)"
    using inv(1,3) by simp
  have ser: "invocations (serial ?s (take ?k ?js) (take ?k ?rs)) = map call_of (take ?k ?js)"
    using len by (rule invocations_serial)
  have hand: "map call_of (take ?k ?js) @ invocations (in_hand ?s ?ph)
                = map call_of (take (?k + invoked ?ph) ?js)"
  proof (cases "?ph = Idle")
    case True
    then show ?thesis by simp
  next
    case False
    then have "held c \<noteq> []"
      by (cases ?ph) (simp_all add: held_def)
    then obtain jt rest where h: "held c = jt # rest"
      by (cases "held c") simp_all
    with inv(2) have dr: "drop ?k ?js = jt # rest"
      by simp
    have "take (?k + invoked ?ph) ?js = take ?k ?js @ take (invoked ?ph) (drop ?k ?js)"
      by (simp add: take_add)
    with dr invocations_in_hand [OF h False, of ?s] show ?thesis
      by simp
  qed
  have inv_eq: "invocations (trace c) = invocations (trace c0)
              @ map call_of (take (?k + invoked ?ph) ?js)"
    using inv(5) ser hand by simp
  have drained: "?k = length ?js" if "idle c"
  proof -
    from that have "held c = []"
      by (simp add: idle_def held_def)
    with inv(1,2) show ?thesis by simp
  qed
  have progress: "\<exists>x c'. resume x c = Some c'" if "held c \<noteq> []"
  proof -
    from that idle_iff have "?ph \<noteq> Idle" by blast
    then show ?thesis by (rule resume_enabled)
  qed
  from inv(5) inv(2) inv_eq drained progress show ?thesis
    by blast
qed

theorem queue_runs_fifo_one_job_at_a_time_witness:
  "idle (new_MessengerContext (Some alice))
   \<and> list_all queue_input
         [Enqueue hello, Resume TimerFired, Enqueue quiet,
          Resume (ActionSettled (Failed (JStr ''boom''))), Resume AfterDone, Resume TimerFired,
          Resume (ActionSettled (Fulfilled (JStr ''ok''))), Resume AfterDone]
   \<and> (\<exists>c. run [Enqueue hello, Resume TimerFired, Enqueue quiet,
                Resume (ActionSettled (Failed (JStr ''boom''))), Resume AfterDone,
                Resume TimerFired, Resume (ActionSettled (Fulfilled (JStr ''ok''))),
                Resume AfterDone]
               (new_MessengerContext (Some alice)) = Some c
          \<and> trace c =
               [ClientCall ''typingOn'' [JStr ''u1''], Sleep 1000,
                Invoke 0 ''sendText'' [JStr ''u1'', JStr ''hi''],
                ClientCall ''typingOff'' [JStr ''u1''], Deliver 0 (Failed (JStr ''boom'')),
                Sleep 0, Invoke 1 ''sendImage'' [JStr ''u1'', JStr ''cat.png''],
                Deliver 1 (Fulfilled (JStr ''ok''))]
          \<and> held c = []
          \<and> invocations (trace c) =
               [(0, ''sendText'', [JStr ''u1'', JStr ''hi'']),
                (1, ''sendImage'', [JStr ''u1'', JStr ''cat.png''])])"
proof -
  let ?c0 = "new_MessengerContext (Some alice)"
  let ?ins = "[Enqueue hello, Resume TimerFired, Enqueue quiet,
                Resume (ActionSettled (Failed (JStr ''boom''))), Resume AfterDone,
                Resume TimerFired, Resume (ActionSettled (Fulfilled (JStr ''ok''))),
                Resume AfterDone]"
  have q: "list_all queue_input ?ins"
    by simp
  obtain c where c: "run ?ins ?c0 = Some c" and ph: "phase (jobQueue c) = Idle"
    by (simp add: new_MessengerContext_def setMessageDelay_def ctx_enqueue_def enqueue_def
          start_next_def set_phase_def Let_def)
  have e: "enqueued 0 ?ins = [(hello, 0), (quiet, 1)]"
    "outcomes ?ins = [Failed (JStr ''boom''), Fulfilled (JStr ''ok'')]"
    "completed ?ins = 2"
    by simp_all
  have s: "serial (Some alice) [(hello, 0), (quiet, 1)]
             [Failed (JStr ''boom''), Fulfilled (JStr ''ok'')]
           = [ClientCall ''typingOn'' [JStr ''u1''], Sleep 1000,
                Invoke 0 ''sendText'' [JStr ''u1'', JStr ''hi''],
                ClientCall ''typingOff'' [JStr ''u1''], Deliver 0 (Failed (JStr ''boom'')),
                Sleep 0, Invoke 1 ''sendImage'' [JStr ''u1'', JStr ''cat.png''],
                Deliver 1 (Fulfilled (JStr ''ok''))]"
    by (simp add: serial_def job_events_def sample_signals) (simp add: hello_def quiet_def)
  note t = queue_runs_fifo_one_job_at_a_time [OF sample_context(5) q c]
  from t [THEN conjunct1]
  have "trace c = serial (Some alice) [(hello, 0), (quiet, 1)]
             [Failed (JStr ''boom''), Fulfilled (JStr ''ok'')]"
    by (simp add: e sample_context ph)
  with s have "trace c = [ClientCall ''typingOn'' [JStr ''u1''], Sleep 1000,
                Invoke 0 ''sendText'' [JStr ''u1'', JStr ''hi''],
                ClientCall ''typingOff'' [JStr ''u1''], Deliver 0 (Failed (JStr ''boom'')),
                Sleep 0, Invoke 1 ''sendImage'' [JStr ''u1'', JStr ''cat.png''],
                Deliver 1 (Fulfilled (JStr ''ok''))]"
    by (simp only:)
  moreover from t [THEN conjunct2, THEN conjunct1]
  have "held c = []"
    by (simp add: e)
  moreover from t [THEN conjunct2, THEN conjunct2, THEN conjunct1]
  have "invocations (trace c) =
               [(0, ''sendText'', [JStr ''u1'', JStr ''hi'']),
                (1, ''sendImage'', [JStr ''u1'', JStr ''cat.png''])]"
    by (simp add: e sample_context ph call_of_def hello_def quiet_def)
  ultimately have "trace c = [ClientCall ''typingOn'' [JStr ''u1''], Sleep 1000,
                Invoke 0 ''sendText'' [JStr ''u1'', JStr ''hi''],
                ClientCall ''typingOff'' [JStr ''u1''], Deliver 0 (Failed (JStr ''boom'')),
                Sleep 0, Invoke 1 ''sendImage'' [JStr ''u1'', JStr ''cat.png''],
                Deliver 1 (Fulfilled (JStr ''ok''))]"
    and "held c = []"
    and "invocations (trace c) =
               [(0, ''sendText'', [JStr ''u1'', JStr ''hi'']),
                (1, ''sendImage'', [JStr ''u1'', JStr ''cat.png''])]"
    by blast+
  with sample_context(5) q c show ?thesis
    by (intro conjI exI [of _ c])
qed

text \<open>
  Claim C5. A job is taken up either when it is enqueued on an idle queue or when the
  job before it ends; from there to the end of its after-hook the trace gains, in this
  order: the signal of the before-hook, the sleep of the job's delay, the job's call on
  the platform client, and the signal of the after-hook. For a job with
  \<^verbatim>\<open>showIndicators\<close> true (or absent) on a context with a bound session, the two
  signals are the client's typing-on and typing-off calls for the session's user. For a
  job with \<^verbatim>\<open>showIndicators: false\<close> both signals are empty, and the sleep still
  precedes the call. A context that holds a job after any schedule of public operations
  and resumptions has a bound session. The time that passes is that of the awaited
  \<^verbatim>\<open>sleep(delay)\<close>.
\<close>

theorem indicators_bracket_the_call:
  "(idle c \<longrightarrow>
      (\<exists>c'. run [Enqueue j, Resume TimerFired, Resume (ActionSettled r)] c = Some c'
         \<and> trace c' = trace c @ signal ''typingOn'' (session c) j
               @ [Sleep (delay j), Invoke (deferreds c) (method j) (args j)]
               @ signal ''typingOff'' (session c) j))
   \<and> (phase (jobQueue c) = AwaitAfter prev r0 \<and> pending (jobQueue c) = (j, n) # rest \<longrightarrow>
      (\<exists>c'. run [Resume AfterDone, Resume TimerFired, Resume (ActionSettled r)] c = Some c'
         \<and> trace c' = trace c @ [Deliver (snd prev) r0]
               @ signal ''typingOn'' (session c) j
               @ [Sleep (delay j), Invoke n (method j) (args j)]
               @ signal ''typingOff'' (session c) j))
   \<and> (showIndicators j \<noteq> Some False \<longrightarrow>
        signal name (Some s) j = [ClientCall name [JStr (user_id (user s))]])
   \<and> (showIndicators j = Some False \<longrightarrow> signal name s' j = [])
   \<and> (list_all public_input ins \<and> run ins (new_MessengerContext s0) = Some c1
        \<and> held c1 \<noteq> [] \<longrightarrow> session c1 \<noteq> None)"
proof -
  have a: "\<exists>c'. run [Enqueue j, Resume TimerFired, Resume (ActionSettled r)] c = Some c'
         \<and> trace c' = trace c @ signal ''typingOn'' (session c) j
               @ [Sleep (delay j), Invoke (deferreds c) (method j) (args j)]
               @ signal ''typingOff'' (session c) j" if "idle c"
    using that by (rule run_from_idle)
  have b: "\<exists>c'. run [Resume AfterDone, Resume TimerFired, Resume (ActionSettled r)] c = Some c'
         \<and> trace c' = trace c @ [Deliver (snd prev) r0]
               @ signal ''typingOn'' (session c) j
               @ [Sleep (delay j), Invoke n (method j) (args j)]
               @ signal ''typingOff'' (session c) j"
    if "phase (jobQueue c) = AwaitAfter prev r0" "pending (jobQueue c) = (j, n) # rest"
    using run_from_queue [OF that, of r] by blast
  have on: "signal name (Some s) j = [ClientCall name [JStr (user_id (user s))]]"
    if "showIndicators j \<noteq> Some False"
    using that by (cases "showIndicators j") (auto simp: signal_def indicators_def)
  have off: "signal name s' j = []" if "showIndicators j = Some False"
    using that by (simp add: signal_def indicators_def)
  have reach: "session c1 \<noteq> None"
    if "list_all public_input ins" "run ins (new_MessengerContext s0) = Some c1" "held c1 \<noteq> []"
  proof -
    have "held (new_MessengerContext s0) = []"
      by (simp add: new_MessengerContext_def setMessageDelay_def held_def)
    then have "held (new_MessengerContext s0) \<noteq> [] \<longrightarrow> session (new_MessengerContext s0) \<noteq> None"
      by simp
    from run_session_held [OF that(1,2) this] that(3) show ?thesis
      by blast
  qed
  from a b on off reach show ?thesis
    by blast
qed

theorem indicators_bracket_the_call_witness:
  "idle (new_MessengerContext (Some alice))
   \<and> showIndicators hello \<noteq> Some False
   \<and> (\<exists>c'. run [Enqueue hello, Resume TimerFired, Resume (ActionSettled (Fulfilled (JStr ''ok'')))]
               (new_MessengerContext (Some alice)) = Some c'
          \<and> trace c' =
               [ClientCall ''typingOn'' [JStr ''u1''], Sleep 1000,
                Invoke 0 ''sendText'' [JStr ''u1'', JStr ''hi''],
                ClientCall ''typingOff'' [JStr ''u1'']])
   \<and> phase (jobQueue
         \<lparr>session = Some alice, messageDelay = 1000,
          jobQueue = \<lparr>pending = [(quiet, 1)], phase = AwaitAfter (hello, 0) (Failed JNull)\<rparr>,
          deferreds = 2, trace = []\<rparr>) = AwaitAfter (hello, 0) (Failed JNull)
   \<and> pending (jobQueue
         \<lparr>session = Some alice, messageDelay = 1000,
          jobQueue = \<lparr>pending = [(quiet, 1)], phase = AwaitAfter (hello, 0) (Failed JNull)\<rparr>,
          deferreds = 2, trace = []\<rparr>) = [(quiet, 1)]
   \<and> showIndicators quiet = Some False
   \<and> (\<exists>c'. run [Resume AfterDone, Resume TimerFired, Resume (ActionSettled (Fulfilled (JStr ''ok'')))]
         \<lparr>session = Some alice, messageDelay = 1000,
          jobQueue = \<lparr>pending = [(quiet, 1)], phase = AwaitAfter (hello, 0) (Failed JNull)\<rparr>,
          deferreds = 2, trace = []\<rparr> = Some c'
          \<and> trace c' =
               [Deliver 0 (Failed JNull), Sleep 0,
                Invoke 1 ''sendImage'' [JStr ''u1'', JStr ''cat.png'']])
   \<and> list_all public_input [Call (SendText ''hi'' JUndefined)]
   \<and> (\<exists>c1. run [Call (SendText ''hi'' JUndefined)] (new_MessengerContext (Some alice)) = Some c1
          \<and> held c1 \<noteq> [] \<and> session c1 \<noteq> None)"
proof -
  let ?c = "new_MessengerContext (Some alice)"
  let ?r = "Fulfilled (JStr ''ok'')"
  let ?d = "\<lparr>session = Some alice, messageDelay = 1000,
          jobQueue = \<lparr>pending = [(quiet, 1)], phase = AwaitAfter (hello, 0) (Failed JNull)\<rparr>,
          deferreds = 2, trace = []\<rparr>"
  have h: "showIndicators hello \<noteq> Some False" "showIndicators quiet = Some False"
    "method hello = ''sendText''" "args hello = [JStr ''u1'', JStr ''hi'']" "delay hello = 1000"
    "method quiet = ''sendImage''" "args quiet = [JStr ''u1'', JStr ''cat.png'']"
    "delay quiet = 0"
    by (simp_all add: hello_def quiet_def)
  have d: "phase (jobQueue ?d) = AwaitAfter (hello, 0) (Failed JNull)"
    "pending (jobQueue ?d) = [(quiet, 1)]" "session ?d = Some alice" "trace ?d = []"
    by simp_all
  have u: "user_id (user alice) = ''u1''"
    by (simp add: alice_def)
  note a = indicators_bracket_the_call
             [of ?c hello ?r "(hello, 0)" "Failed JNull" 0 "[]" "''typingOn''" alice None "[]" None ?c]
  note b = indicators_bracket_the_call
             [of ?d quiet ?r "(hello, 0)" "Failed JNull" 1 "[]" "''typingOff''" alice "Some alice"
                 "[]" None ?c]
  from a [THEN conjunct1] sample_context(5)
  have 1: "\<exists>c'. run [Enqueue hello, Resume TimerFired, Resume (ActionSettled ?r)] ?c = Some c'
         \<and> trace c' = trace ?c @ signal ''typingOn'' (session ?c) hello
               @ [Sleep (delay hello), Invoke (deferreds ?c) (method hello) (args hello)]
               @ signal ''typingOff'' (session ?c) hello"
    by blast
  from a [THEN conjunct2, THEN conjunct2, THEN conjunct1] h(1)
  have 2: "signal ''typingOn'' (Some alice) hello = [ClientCall ''typingOn'' [JStr ''u1'']]"
    by (simp add: u)
  have 3: "signal ''typingOff'' (Some alice) hello = [ClientCall ''typingOff'' [JStr ''u1'']]"
    by (rule sample_signals)
  from b [THEN conjunct2, THEN conjunct1] d(1,2)
  have 4: "\<exists>c'. run [Resume AfterDone, Resume TimerFired, Resume (ActionSettled ?r)] ?d = Some c'
         \<and> trace c' = trace ?d @ [Deliver (snd (hello, 0::nat)) (Failed JNull)]
               @ signal ''typingOn'' (session ?d) quiet
               @ [Sleep (delay quiet), Invoke 1 (method quiet) (args quiet)]
               @ signal ''typingOff'' (session ?d) quiet"
    by blast
  from b [THEN conjunct2, THEN conjunct2, THEN conjunct2, THEN conjunct1] h(2)
  have 5: "signal ''typingOff'' (Some alice) quiet = []"
    by simp
  have 7: "signal ''typingOn'' (Some alice) quiet = []"
    by (rule sample_signals)
  from 1 have A: "\<exists>c'. run [Enqueue hello, Resume TimerFired, Resume (ActionSettled ?r)] ?c = Some c'
          \<and> trace c' =
               [ClientCall ''typingOn'' [JStr ''u1''], Sleep 1000,
                Invoke 0 ''sendText'' [JStr ''u1'', JStr ''hi''],
                ClientCall ''typingOff'' [JStr ''u1'']]"
    by (simp add: sample_context 2 3 h del: run.simps)
  from 4 have B: "\<exists>c'. run [Resume AfterDone, Resume TimerFired, Resume (ActionSettled ?r)] ?d = Some c'
          \<and> trace c' =
               [Deliver 0 (Failed JNull), Sleep 0,
                Invoke 1 ''sendImage'' [JStr ''u1'', JStr ''cat.png'']]"
    by (simp add: 5 7 h del: run.simps)
  have p: "list_all public_input [Call (SendText ''hi'' JUndefined)]"
    by simp
  obtain c1 where r1: "run [Call (SendText ''hi'' JUndefined)] ?c = Some c1"
    and r2: "held c1 \<noteq> []"
    by (simp add: new_MessengerContext_def setMessageDelay_def sendText_def ctx_enqueue_def
          enqueue_def start_next_def held_def Let_def alice_def)
  from indicators_bracket_the_call
         [of ?c hello ?r "(hello, 0)" "Failed JNull" 0 "[]" "''typingOn''" alice None
             "[Call (SendText ''hi'' JUndefined)]" "Some alice" c1,
          THEN conjunct2, THEN conjunct2, THEN conjunct2, THEN conjunct2] p r1 r2
  have "session c1 \<noteq> None"
    by blast
  with r1 r2
  have C: "\<exists>c1. run [Call (SendText ''hi'' JUndefined)] ?c = Some c1
          \<and> held c1 \<noteq> [] \<and> session c1 \<noteq> None"
    by blast
  from sample_context(5) h(1,2) d(1,2) A B p C show ?thesis
    by (intro conjI)
qed

text \<open>
  Claim C4. \<^verbatim>\<open>_enqueue\<close> returns the deferred whose number the queued job carries.
  When the platform call of a job K rejects with \<open>e\<close>, the queue runs K's after-hook
  and settles K's deferred, and no other, with the rejection \<open>e\<close>; the queue itself
  goes on. A job K+1 that was pending is taken up next and runs as any job does, its
  deferred settled with its own outcome; with nothing pending the queue is idle again,
  and a job enqueued afterwards runs the same way.
\<close>

theorem rejection_stays_with_its_job:
  "fst (ctx_enqueue j c0) = Deferred (deferreds c0)
   \<and> held (snd (ctx_enqueue j c0)) = held c0 @ [(j, deferreds c0)]
   \<and> (phase (jobQueue c) = AwaitAction (jK, nK) \<and> pending (jobQueue c) = (jN, nN) # rest \<longrightarrow>
        (\<exists>c'. run [Resume (ActionSettled (Failed e)), Resume AfterDone, Resume TimerFired,
                   Resume (ActionSettled r), Resume AfterDone] c = Some c'
           \<and> trace c' = trace c @ signal ''typingOff'' (session c) jK @ [Deliver nK (Failed e)]
                 @ job_events (session c) (jN, nN) r
                 @ (case rest of [] \<Rightarrow> [] | jt # jts \<Rightarrow> signal ''typingOn'' (session c) (fst jt))
           \<and> held c' = rest))
   \<and> (phase (jobQueue c) = AwaitAction (jK, nK) \<and> pending (jobQueue c) = [] \<longrightarrow>
        (\<exists>c'. run [Resume (ActionSettled (Failed e)), Resume AfterDone, Enqueue jN,
                   Resume TimerFired, Resume (ActionSettled r), Resume AfterDone] c = Some c'
           \<and> trace c' = trace c @ signal ''typingOff'' (session c) jK @ [Deliver nK (Failed e)]
                 @ job_events (session c) (jN, deferreds c) r
           \<and> idle c'))"
  using run_after_rejection [of c jK nK jN nN rest e r]
    run_rejection_then_enqueue [of c jK nK e jN r]
    held_ctx_enqueue [of j c0]
  by simp

theorem rejection_stays_with_its_job_witness:
  "phase (jobQueue
      \<lparr>session = Some alice, messageDelay = 1000,
       jobQueue = \<lparr>pending = [(quiet, 1)], phase = AwaitAction (hello, 0)\<rparr>,
       deferreds = 2, trace = []\<rparr>) = AwaitAction (hello, 0)
   \<and> pending (jobQueue
      \<lparr>session = Some alice, messageDelay = 1000,
       jobQueue = \<lparr>pending = [(quiet, 1)], phase = AwaitAction (hello, 0)\<rparr>,
       deferreds = 2, trace = []\<rparr>) = [(quiet, 1)]
   \<and> (\<exists>c'. run [Resume (ActionSettled (Failed (JStr ''boom''))), Resume AfterDone,
                 Resume TimerFired, Resume (ActionSettled (Fulfilled (JStr ''ok''))),
                 Resume AfterDone]
            \<lparr>session = Some alice, messageDelay = 1000,
             jobQueue = \<lparr>pending = [(quiet, 1)], phase = AwaitAction (hello, 0)\<rparr>,
             deferreds = 2, trace = []\<rparr> = Some c'
          \<and> trace c' =
               [ClientCall ''typingOff'' [JStr ''u1''], Deliver 0 (Failed (JStr ''boom'')),
                Sleep 0, Invoke 1 ''sendImage'' [JStr ''u1'', JStr ''cat.png''],
                Deliver 1 (Fulfilled (JStr ''ok''))]
          \<and> held c' = [])
   \<and> phase (jobQueue
      \<lparr>session = Some alice, messageDelay = 1000,
       jobQueue = \<lparr>pending = [], phase = AwaitAction (hello, 0)\<rparr>,
       deferreds = 1, trace = []\<rparr>) = AwaitAction (hello, 0)
   \<and> pending (jobQueue
      \<lparr>session = Some alice, messageDelay = 1000,
       jobQueue = \<lparr>pending = [], phase = AwaitAction (hello, 0)\<rparr>,
       deferreds = 1, trace = []\<rparr>) = []
   \<and> (\<exists>c'. run [Resume (ActionSettled (Failed (JStr ''boom''))), Resume AfterDone,
                 Enqueue quiet, Resume TimerFired,
                 Resume (ActionSettled (Fulfilled (JStr ''ok''))), Resume AfterDone]
            \<lparr>session = Some alice, messageDelay = 1000,
             jobQueue = \<lparr>pending = [], phase = AwaitAction (hello, 0)\<rparr>,
             deferreds = 1, trace = []\<rparr> = Some c'
          \<and> trace c' =
               [ClientCall ''typingOff'' [JStr ''u1''], Deliver 0 (Failed (JStr ''boom'')),
                Sleep 0, Invoke 1 ''sendImage'' [JStr ''u1'', JStr ''cat.png''],
                Deliver 1 (Fulfilled (JStr ''ok''))]
          \<and> idle c')"
proof -
  let ?d1 = "\<lparr>session = Some alice, messageDelay = 1000,
             jobQueue = \<lparr>pending = [(quiet, 1)], phase = AwaitAction (hello, 0)\<rparr>,
             deferreds = 2, trace = []\<rparr>"
  let ?d2 = "\<lparr>session = Some alice, messageDelay = 1000,
             jobQueue = \<lparr>pending = [], phase = AwaitAction (hello, 0)\<rparr>,
             deferreds = 1, trace = []\<rparr>"
  let ?e = "JStr ''boom''"
  let ?r = "Fulfilled (JStr ''ok'')"
  have d1: "phase (jobQueue ?d1) = AwaitAction (hello, 0)" "pending (jobQueue ?d1) = [(quiet, 1)]"
    and d2: "phase (jobQueue ?d2) = AwaitAction (hello, 0)" "pending (jobQueue ?d2) = []"
    by simp_all
  have ev: "job_events (Some alice) (quiet, Suc 0) ?r
              = [Sleep 0, Invoke (Suc 0) ''sendImage'' [JStr ''u1'', JStr ''cat.png''],
                 Deliver (Suc 0) ?r]"
    by (simp add: job_events_def sample_signals) (simp add: quiet_def)
  note a = rejection_stays_with_its_job
             [of hello ?d1 ?d1 hello 0 quiet 1 "[]" ?e ?r, THEN conjunct2, THEN conjunct2,
              THEN conjunct1]
  note b = rejection_stays_with_its_job
             [of hello ?d2 ?d2 hello 0 quiet 1 "[]" ?e ?r, THEN conjunct2, THEN conjunct2,
              THEN conjunct2]
  from a d1
  have A: "\<exists>c'. run [Resume (ActionSettled (Failed ?e)), Resume AfterDone,
                 Resume TimerFired, Resume (ActionSettled ?r), Resume AfterDone] ?d1 = Some c'
          \<and> trace c' =
               [ClientCall ''typingOff'' [JStr ''u1''], Deliver 0 (Failed ?e),
                Sleep 0, Invoke 1 ''sendImage'' [JStr ''u1'', JStr ''cat.png''],
                Deliver 1 ?r]
          \<and> held c' = []"
    by (simp add: ev sample_signals del: run.simps)
  from b d2
  have B: "\<exists>c'. run [Resume (ActionSettled (Failed ?e)), Resume AfterDone,
                 Enqueue quiet, Resume TimerFired, Resume (ActionSettled ?r), Resume AfterDone]
                ?d2 = Some c'
          \<and> trace c' =
               [ClientCall ''typingOff'' [JStr ''u1''], Deliver 0 (Failed ?e),
                Sleep 0, Invoke 1 ''sendImage'' [JStr ''u1'', JStr ''cat.png''],
                Deliver 1 ?r]
          \<and> idle c'"
    by (simp add: ev sample_signals del: run.simps)
  from d1 A d2 B show ?thesis
    by (intro conjI)
qed

section \<open>typing, outside the queue\<close>

text \<open>
  Claim C8, amended. \<^verbatim>\<open>typing(ms)\<close> runs at once and leaves the job queue as it was:
  nothing is enqueued, no deferred is made, and what it does is the same whatever the
  queue holds. On a context with a bound session it calls the client's typing-on for
  the session's user; when that promise resolves, it sleeps \<open>ms\<close> and then calls the
  client's typing-off, and its own promise settles as the typing-off promise does; when
  the typing-on promise rejects, \<^verbatim>\<open>typing\<close> rejects with the same error at once, with
  no sleep and no typing-off. On a context without session it emits the two
  session-missing warnings around the sleep and calls nothing.
\<close>

theorem typing_outside_the_queue:
  "(\<exists>p c'. typing cl ms c = Some (p, c')
      \<and> jobQueue c' = jobQueue c \<and> deferreds c' = deferreds c
      \<and> (case session c of
            None \<Rightarrow>
              p = Settled (Fulfilled JUndefined)
              \<and> trace c' = trace c @ [Warning (without_session ''typingOn''), Sleep ms,
                                       Warning (without_session ''typingOff'')]
          | Some s \<Rightarrow>
              (case cl ''typingOn'' [JStr (user_id (user s))] of
                 Failed e \<Rightarrow>
                   p = Settled (Failed e)
                   \<and> trace c' = trace c @ [ClientCall ''typingOn'' [JStr (user_id (user s))]]
               | Fulfilled v \<Rightarrow>
                   p = Settled (case cl ''typingOff'' [JStr (user_id (user s))] of
                                  Failed e \<Rightarrow> Failed e
                                | Fulfilled w \<Rightarrow> Fulfilled JUndefined)
                   \<and> trace c' = trace c @ [ClientCall ''typingOn'' [JStr (user_id (user s))],
                                            Sleep ms,
                                            ClientCall ''typingOff'' [JStr (user_id (user s))]])))
   \<and> typing cl ms (c\<lparr>jobQueue := q\<rparr>)
       = map_option (\<lambda>(p, c'). (p, c'\<lparr>jobQueue := q\<rparr>)) (typing cl ms c)"
  using typing_defined [of cl ms c] typing_ignores_queue [of cl ms q c]
  by (rule conjI)

theorem typing_outside_the_queue_witness:
  "\<exists>c'. typing reachable 500 (new_MessengerContext (Some alice))
           = Some (Settled (Fulfilled JUndefined), c')
        \<and> jobQueue c' = \<lparr>pending = [], phase = Idle\<rparr> \<and> deferreds c' = 0
        \<and> trace c' = [ClientCall ''typingOn'' [JStr ''u1''], Sleep 500,
                       ClientCall ''typingOff'' [JStr ''u1'']]"
  using typing_outside_the_queue [of reachable 500 "new_MessengerContext (Some alice)",
      THEN conjunct1]
  by (simp add: new_MessengerContext_def setMessageDelay_def alice_def reachable_def)

text \<open>
  Claim C8 as stated fails where the typing-on call rejects: with the session of
  \<open>alice\<close> and a client that cannot be reached, \<^verbatim>\<open>typing(500)\<close> rejects after the
  typing-on call alone; it neither sleeps nor signals typing-off.
\<close>

theorem typing_stops_when_typingOn_rejects:
  "map_option fst (typing unreachable 500 (new_MessengerContext (Some alice)))
     = Some (Settled (Failed (JStr ''unreachable'')))
   \<and> map_option (trace \<circ> snd) (typing unreachable 500 (new_MessengerContext (Some alice)))
     = Some [ClientCall ''typingOn'' [JStr ''u1'']]"
  by (simp add: typing_def typingOn_def new_MessengerContext_def setMessageDelay_def
        alice_def unreachable_def)

end
